theory Spec2Isabelle
  imports Complex_Main "HOL-Library.Sublist"
begin

section \<open>Voice activity detector (\<^verbatim>\<open>src/components/chat/helpers/vad.ts\<close>)\<close>

text \<open>
  \<^verbatim>\<open>startVAD\<close> keeps its state in the closure variables \<^verbatim>\<open>isSpeaking\<close>,
  \<^verbatim>\<open>silenceTimer\<close>, \<^verbatim>\<open>stopped\<close> and \<^verbatim>\<open>rafId\<close>. The browser is single threaded: the
  code runs as a sequence of callbacks (the resolution of \<^verbatim>\<open>init\<close>, an animation frame,
  a timeout, a call of the returned \<^verbatim>\<open>stop\<close> function), each of them atomic. The model is
  a record of the closure variables together with the host's tables of live animation-frame
  requests and live timeouts, and one function per callback. Real time is abstracted: a
  live timeout may fire at any later moment, so the events of a run are an arbitrary
  list. The two callbacks handed to \<^verbatim>\<open>startVAD\<close> are recorded in the log \<open>calls\<close>;
  what a callback does to the detector in turn (the handsfree hook calls \<^verbatim>\<open>stop\<close> from
  other handlers only) is an event of its own.
\<close>

datatype vad_callback = OnStart | OnStop

record vad =
  isSpeaking :: bool
  silenceTimer :: "nat option"
  stopped :: bool
  rafId :: "nat option"
  init_pending :: bool
  frames :: "nat list"
  timers :: "nat list"
  fresh :: nat
  calls :: "vad_callback list"

text \<open>Host functions. Handles are positive numbers, never reused.\<close>

definition requestAnimationFrame :: "vad \<Rightarrow> vad" where
  "requestAnimationFrame s =
     s\<lparr>rafId := Some (Suc (fresh s)), frames := frames s @ [Suc (fresh s)],
       fresh := Suc (fresh s)\<rparr>"

definition cancelAnimationFrame :: "nat \<Rightarrow> vad \<Rightarrow> vad" where
  "cancelAnimationFrame h s = s\<lparr>frames := removeAll h (frames s)\<rparr>"

definition setTimeout :: "vad \<Rightarrow> vad" where
  "setTimeout s =
     s\<lparr>silenceTimer := Some (Suc (fresh s)), timers := timers s @ [Suc (fresh s)],
       fresh := Suc (fresh s)\<rparr>"

definition clearTimeout :: "nat \<Rightarrow> vad \<Rightarrow> vad" where
  "clearTimeout h s = s\<lparr>timers := removeAll h (timers s)\<rparr>"

text \<open>The state right after \<^verbatim>\<open>startVAD\<close> returns: \<^verbatim>\<open>init\<close> is awaiting the microphone.\<close>

definition startVAD :: vad where
  "startVAD =
     \<lparr>isSpeaking = False, silenceTimer = None, stopped = False, rafId = None,
      init_pending = True, frames = [], timers = [], fresh = 0, calls = []\<rparr>"

text \<open>
  \<^verbatim>\<open>stop\<close>: sets \<^verbatim>\<open>stopped\<close>, cancels the frame request when \<^verbatim>\<open>rafId != null\<close>, and
  clears the silence timer when \<^verbatim>\<open>silenceTimer\<close> is truthy (closing the audio context and
  the tracks is inside \<^verbatim>\<open>try\<close>/\<^verbatim>\<open>catch\<close> and touches none of the variables).
\<close>

definition stop :: "vad \<Rightarrow> vad" where
  "stop s =
     (let s1 = s\<lparr>stopped := True\<rparr>;
          s2 = (case rafId s1 of None \<Rightarrow> s1 | Some h \<Rightarrow> cancelAnimationFrame h s1)
      in case silenceTimer s2 of
           None \<Rightarrow> s2
         | Some t \<Rightarrow> if t \<noteq> 0 then clearTimeout t s2 else s2)"

text \<open>The callback of the silence timer.\<close>

definition silence_elapsed :: "vad \<Rightarrow> vad" where
  "silence_elapsed s =
     (if isSpeaking s \<and> \<not> stopped s
      then s\<lparr>isSpeaking := False, calls := calls s @ [OnStop]\<rparr>
      else s)"

text \<open>
  The root mean square of the waveform around its midpoint 128, as \<^verbatim>\<open>loop\<close> computes it
  from the bytes of \<^verbatim>\<open>dataArray\<close> (2048 of them), over the real numbers.
\<close>

definition rms_of :: "nat list \<Rightarrow> real" where
  "rms_of dataArray =
     sqrt (foldl (\<lambda>sum val. sum + (real val - 128) ^ 2) 0 dataArray / real (length dataArray))"

text \<open>
  \<^verbatim>\<open>loop\<close>, run on an animation frame whose waveform has root mean square \<open>rms\<close>.
\<close>

definition loop :: "real \<Rightarrow> real \<Rightarrow> vad \<Rightarrow> vad" where
  "loop volumeThreshold rms s =
     (if stopped s then s
      else
        let isLoud = rms > volumeThreshold;
            s1 = (if isLoud then
                    let s2 = (if \<not> isSpeaking s
                              then s\<lparr>isSpeaking := True, calls := calls s @ [OnStart]\<rparr>
                              else s);
                        s3 = (case silenceTimer s2 of
                                None \<Rightarrow> s2
                              | Some t \<Rightarrow> if t \<noteq> 0 then clearTimeout t s2 else s2)
                    in setTimeout s3
                  else s)
        in requestAnimationFrame s1)"

text \<open>
  The events of a run. \<open>InitResolved\<close>: the microphone was granted and \<^verbatim>\<open>init\<close> requests
  the first frame; \<open>InitRejected\<close>: \<^verbatim>\<open>getUserMedia\<close> failed and the detector stays inert.
  \<open>Frame h dataArray\<close> (an animation frame, with the bytes the analyser gives) and
  \<open>Timeout h\<close> are delivered by the host only for a live handle.
\<close>

datatype vad_event =
    InitResolved
  | InitRejected
  | Frame nat "nat list"
  | Timeout nat
  | Stop

fun vad_step :: "real \<Rightarrow> vad \<Rightarrow> vad_event \<Rightarrow> vad" where
  "vad_step th s InitResolved =
     (if init_pending s then requestAnimationFrame (s\<lparr>init_pending := False\<rparr>) else s)"
| "vad_step th s InitRejected = s\<lparr>init_pending := False\<rparr>"
| "vad_step th s (Frame h dataArray) =
     (if h \<in> set (frames s)
      then loop th (rms_of dataArray) (s\<lparr>frames := removeAll h (frames s)\<rparr>)
      else s)"
| "vad_step th s (Timeout h) =
     (if h \<in> set (timers s) then silence_elapsed (s\<lparr>timers := removeAll h (timers s)\<rparr>)
      else s)"
| "vad_step th s Stop = stop s"

definition vad_run :: "real \<Rightarrow> vad \<Rightarrow> vad_event list \<Rightarrow> vad" where
  "vad_run th s es = foldl (vad_step th) s es"

text \<open>
  The alternating sequence of callbacks of length \<open>n\<close>: \<open>OnStart, OnStop, OnStart, ...\<close>
\<close>

definition alternation :: "nat \<Rightarrow> vad_callback list" where
  "alternation n = map (\<lambda>i. if even i then OnStart else OnStop) [0..<n]"

definition count_cb :: "vad_callback \<Rightarrow> vad_callback list \<Rightarrow> nat" where
  "count_cb c xs = length (filter (\<lambda>x. x = c) xs)"

text \<open>The invariant of the detector: the log alternates and \<^verbatim>\<open>isSpeaking\<close> tells its parity.\<close>

definition vad_inv :: "vad \<Rightarrow> bool" where
  "vad_inv s \<longleftrightarrow>
     calls s = alternation (length (calls s)) \<and> isSpeaking s = odd (length (calls s))"

text \<open>
  A loud and a quiet waveform (root mean squares 100 and 2), and a short session with the
  default threshold 10: the microphone is granted, a loud frame, a quiet frame, the
  silence timer of the loud frame fires, another loud frame.
\<close>

definition loud_frame :: "nat list" where
  "loud_frame = [228, 28, 228, 28]"

definition quiet_frame :: "nat list" where
  "quiet_frame = [130, 126, 130, 126]"

definition sample_session :: "vad_event list" where
  "sample_session =
     [InitResolved, Frame 1 loud_frame, Frame 3 quiet_frame, Timeout 2, Frame 4 loud_frame]"

section \<open>JavaScript strings\<close>

text \<open>
  A JavaScript string is a sequence of UTF-16 code units; \<^verbatim>\<open>length\<close>, \<^verbatim>\<open>slice\<close>, \<^verbatim>\<open>trim\<close>
  and regular expressions without the \<^verbatim>\<open>u\<close> flag all work on code units. A code unit is
  modelled by its number. \<open>js\<close> turns an ASCII literal into such a string.
\<close>

type_synonym jsstring = "nat list"

definition js :: "string \<Rightarrow> jsstring" where
  "js s = map of_char s"

text \<open>
  The white space of ECMAScript (WhiteSpace and LineTerminator): what \<^verbatim>\<open>trim\<close> removes
  and what \<^verbatim>\<open>\s\<close> matches.
\<close>

definition is_space :: "nat \<Rightarrow> bool" where
  "is_space c \<longleftrightarrow>
     c \<in> {9, 10, 11, 12, 13, 32, 160, 5760, 8232, 8233, 8239, 8287, 12288, 65279}
     \<or> (8192 \<le> c \<and> c \<le> 8202)"

definition trim :: "jsstring \<Rightarrow> jsstring" where
  "trim s = rev (dropWhile is_space (rev (dropWhile is_space s)))"

definition startsWith :: "jsstring \<Rightarrow> jsstring \<Rightarrow> bool" where
  "startsWith s p \<longleftrightarrow> take (length p) s = p"

section \<open>Text chunker (\<^verbatim>\<open>src/components/chat/helpers/chunkTextForTTS.ts\<close>)\<close>

text \<open>The character class \<^verbatim>\<open>[.!?]\<close>.\<close>

definition is_sentence_end :: "nat \<Rightarrow> bool" where
  "is_sentence_end c \<longleftrightarrow> c = 46 \<or> c = 33 \<or> c = 63"

text \<open>
  \<^verbatim>\<open>text.split(/(?<=[.!?])\s+/)\<close>. The splitter scans the string from left to right; at
  a position whose code unit is white space and whose predecessor is one of \<^verbatim>\<open>.!?\<close>, the
  greedy \<^verbatim>\<open>\s+\<close> matches the whole run of white space, the piece read so far is emitted
  and the scan goes on after the run. The piece left at the end is emitted too (it is
  empty when the text ends with a separator). \<open>split_from b cur rest\<close>: \<open>b\<close> tells whether
  the code unit before \<open>rest\<close> is one of \<^verbatim>\<open>.!?\<close>, \<open>cur\<close> is the piece read so far.
\<close>

function split_from :: "bool \<Rightarrow> jsstring \<Rightarrow> jsstring \<Rightarrow> jsstring list" where
  "split_from b cur [] = [cur]"
| "split_from b cur (c # cs) =
     (if b \<and> is_space c then cur # split_from False [] (dropWhile is_space cs)
      else split_from (is_sentence_end c) (cur @ [c]) cs)"
  by pat_completeness auto
termination
  by (relation "measure (\<lambda>(b, cur, rest). length rest)")
    (auto simp: length_dropWhile_le less_Suc_eq_le)

definition split_sentences :: "jsstring \<Rightarrow> jsstring list" where
  "split_sentences text = split_from False [] text"

text \<open>
  \<^verbatim>\<open>chunkTextForTTS\<close>. The result \<^verbatim>\<open>[text]\<close> or \<^verbatim>\<open>[introChunk, undefined]\<close> is the pair
  with no remainder. \<^verbatim>\<open>filter(Boolean)\<close> drops the empty pieces, \<^verbatim>\<open>sentences[i] ?? ""\<close>
  is the empty string when there is no such piece.
\<close>

definition chunkTextForTTS :: "jsstring \<Rightarrow> jsstring \<times> jsstring option" where
  "chunkTextForTTS text =
     (if length text \<le> 80 then (text, None)
      else
        let sentences = filter (\<lambda>s. s \<noteq> []) (split_sentences text);
            first = (case sentences of [] \<Rightarrow> [] | a # _ \<Rightarrow> a);
            second = (case sentences of a # b # _ \<Rightarrow> b | _ \<Rightarrow> []);
            introChunk = (if length first \<ge> 30 then first
                          else trim (first @ js '' '' @ second));
            remainder = trim (drop (length introChunk) text)
        in (introChunk, if remainder = [] then None else Some remainder))"

text \<open>
  What a listener gets from the two chunks: the intro, then (when there is a remainder)
  a joining space and the remainder. \<open>content\<close> is a text without its white space: two
  texts with the same content differ in spacing only.
\<close>

definition rejoin :: "jsstring \<times> jsstring option \<Rightarrow> jsstring" where
  "rejoin r = (case snd r of None \<Rightarrow> fst r | Some rest \<Rightarrow> fst r @ js '' '' @ rest)"

definition content :: "jsstring \<Rightarrow> jsstring" where
  "content s = filter (\<lambda>c. \<not> is_space c) s"

text \<open>A text of 94 code units whose first sentence is short and followed by two spaces.\<close>

definition sample_text :: jsstring where
  "sample_text =
     js ''Hi.  This is the second sentence of the text. And here is a third sentence that makes it long.''"

section \<open>JavaScript numbers\<close>

text \<open>
  A \<^verbatim>\<open>number\<close> is an IEEE 754 double: not-a-number, an infinity, or a finite value given
  by its sign, a mantissa \<open>m\<close> and an exponent \<open>e\<close>, standing for \<open>m * 2 ^ e\<close> or its
  negative. The flag of an infinity and the sign of a finite value are true for the
  negative ones; there are two zeros. The operations give a finite result in the form
  a double has: \<open>m\<close> below \<open>2 ^ 53\<close> and \<open>e\<close> from \<open>- 1074\<close> to \<open>971\<close>, with \<open>m\<close> at
  least \<open>2 ^ 52\<close> unless \<open>e\<close> is \<open>- 1074\<close>, and a zero as mantissa 0 with exponent 0.
\<close>

datatype number = NaN | Infinity bool | Finite bool int int

text \<open>The number of binary digits of a positive integer.\<close>

function bits :: "int \<Rightarrow> int" where
  "bits n = (if n \<le> 0 then 0 else 1 + bits (n div 2))"
  by pat_completeness auto

termination
  by (relation "measure nat") auto

text \<open>
  The quotient \<open>n / d\<close> of two integers, \<open>d\<close> positive, rounded to the nearest integer,
  a tie going to the even one.
\<close>

definition round_half_even :: "int \<Rightarrow> int \<Rightarrow> int" where
  "round_half_even n d =
     (let q = n div d; r = n mod d
      in if 2 * r < d then q
         else if d < 2 * r then q + 1
         else if even q then q else q + 1)"

text \<open>
  For positive \<open>p\<close> and \<open>q\<close>, the exponent \<open>b\<close> with \<open>2 ^ b \<le> p / q < 2 ^ (b + 1)\<close>.
\<close>

definition binade :: "int \<Rightarrow> int \<Rightarrow> int" where
  "binade p q =
     (let b = bits p - bits q
      in if (if 0 \<le> b then q * 2 ^ nat b \<le> p else q \<le> p * 2 ^ nat (- b)) then b
         else b - 1)"

text \<open>
  Rounding to nearest, ties to even, as every arithmetic operation of the language does:
  the double nearest to \<open>p / q * 2 ^ e\<close> (for \<open>p\<close> not negative and \<open>q\<close> positive), with
  the sign \<open>s\<close>. The value is cut to 53 binary digits, or to fewer where it lies below
  the normal range; a result of \<open>2 ^ 1024\<close> or more is an infinity.
\<close>

definition to_double :: "bool \<Rightarrow> int \<Rightarrow> int \<Rightarrow> int \<Rightarrow> number" where
  "to_double s p q e =
     (if p = 0 then Finite s 0 0
      else
        let t = max (binade p q + e - 52) (- 1074);
            n = (if t \<le> e then round_half_even (p * 2 ^ nat (e - t)) q
                 else round_half_even p (q * 2 ^ nat (t - e)));
            n' = (if n = 2 ^ 53 then 2 ^ 52 else n);
            t' = (if n = 2 ^ 53 then t + 1 else t)
        in if n = 0 then Finite s 0 0
           else if 971 < t' then Infinity s
           else Finite s n' t')"

text \<open>
  The number a decimal literal or a JSON number denotes: the double nearest to the
  fraction \<open>p / q\<close>.
\<close>

definition num :: "int \<Rightarrow> int \<Rightarrow> number" where
  "num p q = to_double (p < 0) \<bar>p\<bar> q 0"

text \<open>\<^verbatim>\<open>x + y\<close> on numbers.\<close>

fun js_add :: "number \<Rightarrow> number \<Rightarrow> number" where
  "js_add NaN y = NaN"
| "js_add (Infinity s) NaN = NaN"
| "js_add (Infinity s) (Infinity s') = (if s = s' then Infinity s else NaN)"
| "js_add (Infinity s) (Finite s2 m2 e2) = Infinity s"
| "js_add (Finite s1 m1 e1) NaN = NaN"
| "js_add (Finite s1 m1 e1) (Infinity s) = Infinity s"
| "js_add (Finite s1 m1 e1) (Finite s2 m2 e2) =
     (let e0 = min e1 e2;
          a = (if s1 then - m1 else m1) * 2 ^ nat (e1 - e0)
                + (if s2 then - m2 else m2) * 2 ^ nat (e2 - e0)
      in if a = 0 then Finite (s1 \<and> s2) 0 0 else to_double (a < 0) \<bar>a\<bar> 1 e0)"

text \<open>\<^verbatim>\<open>x / y\<close> on numbers.\<close>

fun js_div :: "number \<Rightarrow> number \<Rightarrow> number" where
  "js_div NaN y = NaN"
| "js_div (Infinity s) NaN = NaN"
| "js_div (Infinity s) (Infinity s') = NaN"
| "js_div (Infinity s) (Finite s2 m2 e2) = Infinity (s \<noteq> s2)"
| "js_div (Finite s1 m1 e1) NaN = NaN"
| "js_div (Finite s1 m1 e1) (Infinity s) = Finite (s1 \<noteq> s) 0 0"
| "js_div (Finite s1 m1 e1) (Finite s2 m2 e2) =
     (if m2 = 0 then (if m1 = 0 then NaN else Infinity (s1 \<noteq> s2))
      else to_double (s1 \<noteq> s2) m1 m2 (e1 - e2))"

text \<open>
  \<^verbatim>\<open>Math.round(x)\<close>: the integer nearest to \<open>x\<close>, a tie going up; a value that rounds to
  zero keeps its sign; an integer, an infinity and not-a-number are returned as they
  are.
\<close>

fun Math_round :: "number \<Rightarrow> number" where
  "Math_round NaN = NaN"
| "Math_round (Infinity s) = Infinity s"
| "Math_round (Finite s m e) =
     (if 0 \<le> e \<or> m = 0 then Finite s m e
      else
        let d = 2 ^ nat (- e);
            r = (2 * (if s then - m else m) + d) div (2 * d)
        in if r = 0 then Finite s 0 0 else to_double (r < 0) \<bar>r\<bar> 1 0)"

text \<open>What \<^verbatim>\<open>x || y\<close> and \<^verbatim>\<open>x ? y : z\<close> test on a number.\<close>

fun truthy :: "number \<Rightarrow> bool" where
  "truthy NaN = False"
| "truthy (Infinity s) = True"
| "truthy (Finite s m e) = (m \<noteq> 0)"

section \<open>Transcription upload (\<^verbatim>\<open>sendAudioToAPI\<close> in \<^verbatim>\<open>useHandsfree.ts\<close>)\<close>

text \<open>
  The values \<^verbatim>\<open>JSON.parse\<close> returns. An object is the list of its properties (one pair
  for each key).
\<close>

datatype json =
    JNull
  | JBool bool
  | JNum number
  | JStr jsstring
  | JArr "json list"
  | JObj "(jsstring \<times> json) list"

text \<open>\<^verbatim>\<open>typeof v === "object" && v !== null\<close>: arrays and objects.\<close>

fun is_object :: "json \<Rightarrow> bool" where
  "is_object (JArr _) = True"
| "is_object (JObj _) = True"
| "is_object _ = False"

text \<open>\<^verbatim>\<open>k in v\<close> and \<^verbatim>\<open>v.k\<close> (\<open>None\<close> is \<^verbatim>\<open>undefined\<close>) for the keys the code reads.\<close>

fun has_key :: "jsstring \<Rightarrow> json \<Rightarrow> bool" where
  "has_key k (JObj kvs) = (k \<in> set (map fst kvs))"
| "has_key k _ = False"

fun get_key :: "jsstring \<Rightarrow> json \<Rightarrow> json option" where
  "get_key k (JObj kvs) = map_of kvs k"
| "get_key k _ = None"

text \<open>\<^verbatim>\<open>v ?? d\<close>: the default when \<open>v\<close> is \<^verbatim>\<open>undefined\<close> or \<^verbatim>\<open>null\<close>.\<close>

fun nullish_or :: "json option \<Rightarrow> json \<Rightarrow> json" where
  "nullish_or None d = d"
| "nullish_or (Some JNull) d = d"
| "nullish_or (Some v) d = v"

text \<open>
  \<^verbatim>\<open>fullText += v\<close>: a string is appended as it is; any other value is converted by the
  language first, the conversion \<open>tostr\<close> being a parameter of the model.
\<close>

fun append_value :: "(json \<Rightarrow> jsstring) \<Rightarrow> jsstring \<Rightarrow> json \<Rightarrow> jsstring" where
  "append_value tostr t (JStr s) = t @ s"
| "append_value tostr t v = t @ tostr v"

record usage =
  cost_t :: json
  promptChar :: json
  latencyMs :: json
  ttfcMs :: json

text \<open>
  What all calls of \<^verbatim>\<open>sendAudioToAPI\<close> of one hook share: the ref \<^verbatim>\<open>emittedRef\<close>, which
  every call resets when it starts and tests at the sentinel; the calls of
  \<^verbatim>\<open>onNewTranscription\<close> made so far (text and usage), in order; and whether a
  \<^verbatim>\<open>finally\<close> block has stopped the spinner. The callback is taken to return normally.
\<close>

record hook =
  emittedRef :: bool
  transcriptions :: "(jsstring \<times> usage option) list"
  spinner_stopped :: bool

text \<open>The variables of one call: \<^verbatim>\<open>fullText\<close>, \<^verbatim>\<open>usage\<close> and \<^verbatim>\<open>doneReading\<close>.\<close>

record upload =
  fullText :: jsstring
  usage :: "usage option"
  doneReading :: bool

text \<open>
  \<^verbatim>\<open>chunk.split("\n")\<close>, and the lines kept by \<^verbatim>\<open>filter((line) => line.trim())\<close>.
\<close>

fun split_newline :: "jsstring \<Rightarrow> jsstring \<Rightarrow> jsstring list" where
  "split_newline cur [] = [cur]"
| "split_newline cur (c # cs) =
     (if c = 10 then cur # split_newline [] cs else split_newline (cur @ [c]) cs)"

definition lines_of :: "jsstring \<Rightarrow> jsstring list" where
  "lines_of chunk = filter (\<lambda>line. trim line \<noteq> []) (split_newline [] chunk)"

text \<open>
  The body of \<^verbatim>\<open>for (const line of lines)\<close>. \<open>parse\<close> stands for \<^verbatim>\<open>JSON.parse\<close>, with
  \<open>None\<close> for a syntax error (caught and skipped). On a line that starts with
  \<^verbatim>\<open>"data: "\<close>, \<^verbatim>\<open>line.replace("data: ", "")\<close> removes that prefix.
\<close>

definition process_line ::
  "(jsstring \<Rightarrow> json option) \<Rightarrow> (json \<Rightarrow> jsstring) \<Rightarrow> hook \<times> upload \<Rightarrow> jsstring \<Rightarrow>
   hook \<times> upload" where
  "process_line parse tostr hs line =
     (let h = fst hs; s = snd hs in
      if startsWith line (js ''data: '') then
        let dat = trim (drop (length (js ''data: '')) line) in
        if dat = js ''[DONE]'' then
          (if \<not> emittedRef h \<and> trim (fullText s) \<noteq> []
           then (h\<lparr>emittedRef := True,
                   transcriptions := transcriptions h @ [(fullText s, usage s)]\<rparr>,
                 s\<lparr>doneReading := True\<rparr>)
           else (h, s\<lparr>doneReading := True\<rparr>))
        else
          (case parse dat of
             None \<Rightarrow> (h, s)
           | Some parsed \<Rightarrow>
               if is_object parsed \<and> has_key (js ''type'') parsed
                  \<and> get_key (js ''type'') parsed = Some (JStr (js ''transcript.text.delta''))
               then (h, s\<lparr>fullText :=
                            append_value tostr (fullText s)
                              (nullish_or (get_key (js ''delta'') parsed) (JStr []))\<rparr>)
               else if is_object parsed \<and> has_key (js ''usage'') parsed
                  \<and> (case get_key (js ''usage'') parsed of
                        None \<Rightarrow> False | Some u \<Rightarrow> is_object u)
               then
                 (case get_key (js ''usage'') parsed of
                    None \<Rightarrow> (h, s)
                  | Some u \<Rightarrow>
                      (h, s\<lparr>usage := Some
                           \<lparr>cost_t = nullish_or (get_key (js ''cost'') u) (JNum (Finite False 0 0)),
                            promptChar = nullish_or (get_key (js ''prompt_char'') u) (JNum (Finite False 0 0)),
                            latencyMs = nullish_or (get_key (js ''latency_ms'') u) (JNum (Finite False 0 0)),
                            ttfcMs = nullish_or (get_key (js ''ttfc_ms'') u) (JNum (Finite False 0 0))\<rparr>\<rparr>))
               else (h, s))
      else (h, s))"

text \<open>The \<^verbatim>\<open>for\<close> loop: it breaks once \<^verbatim>\<open>doneReading\<close> is set.\<close>

fun process_lines ::
  "(jsstring \<Rightarrow> json option) \<Rightarrow> (json \<Rightarrow> jsstring) \<Rightarrow> hook \<times> upload \<Rightarrow> jsstring list \<Rightarrow>
   hook \<times> upload" where
  "process_lines parse tostr hs [] = hs"
| "process_lines parse tostr hs (line # rest) =
     (let hs' = process_line parse tostr hs line
      in if doneReading (snd hs') then hs' else process_lines parse tostr hs' rest)"

text \<open>
  What \<^verbatim>\<open>fetch("/api/transcribe")\<close> gives: a rejection, or a response with its \<^verbatim>\<open>ok\<close>
  flag and its body (\<open>None\<close> when \<^verbatim>\<open>res.body\<close> has no reader). The body is read chunk by
  chunk: each \<^verbatim>\<open>await reader.read()\<close> gives the text of a chunk or rejects; the end of
  the list is \<^verbatim>\<open>done\<close>.
\<close>

datatype read = Chunk jsstring | ReadRejects

datatype response = FetchRejects | Response bool "read list option"

text \<open>
  The \<^verbatim>\<open>catch\<close> clause and the \<^verbatim>\<open>finally\<close> block. Every exception of the \<^verbatim>\<open>try\<close> block
  ends in the first and every way out of the function passes through the second, which
  stops the spinner unless \<^verbatim>\<open>isHandsfreeRef.current\<close> holds at that moment.
\<close>

definition catch_clause :: "hook \<Rightarrow> hook" where
  "catch_clause h =
     h\<lparr>transcriptions := transcriptions h @ [(js ''Failed to process audio'', None)]\<rparr>"

definition finally_block :: "bool \<Rightarrow> hook \<Rightarrow> hook" where
  "finally_block isHandsfreeRef h =
     (if \<not> isHandsfreeRef then h\<lparr>spinner_stopped := True\<rparr> else h)"

text \<open>
  \<^verbatim>\<open>sendAudioToAPI\<close> is \<^verbatim>\<open>async\<close>: a call runs up to \<^verbatim>\<open>await fetch(...)\<close>, having reset
  \<^verbatim>\<open>emittedRef\<close>, and is suspended there and at every \<^verbatim>\<open>await reader.read()\<close>; other
  callbacks, also other calls of \<^verbatim>\<open>sendAudioToAPI\<close>, run in between. A suspended call
  is a task: it waits for the response, or for the next read with its variables and what
  remains of the body. \<open>resume\<close> runs a task from one \<^verbatim>\<open>await\<close> to the next, or to the
  end of the function (then no task is left).
\<close>

datatype task = AwaitFetch response | AwaitRead upload "read list"

definition call :: "hook \<Rightarrow> response \<Rightarrow> hook \<times> task" where
  "call h res = (h\<lparr>emittedRef := False\<rparr>, AwaitFetch res)"

fun resume ::
  "(jsstring \<Rightarrow> json option) \<Rightarrow> (json \<Rightarrow> jsstring) \<Rightarrow> bool \<Rightarrow> hook \<Rightarrow> task \<Rightarrow>
   hook \<times> task option" where
  "resume parse tostr hf h (AwaitFetch FetchRejects) = (finally_block hf (catch_clause h), None)"
| "resume parse tostr hf h (AwaitFetch (Response ok body)) =
     (if \<not> ok then (finally_block hf (catch_clause h), None)
      else
        case body of
          None \<Rightarrow> (finally_block hf (catch_clause h), None)
        | Some reads \<Rightarrow>
            (h, Some (AwaitRead \<lparr>fullText = [], usage = None, doneReading = False\<rparr> reads)))"
| "resume parse tostr hf h (AwaitRead s []) = (finally_block hf h, None)"
| "resume parse tostr hf h (AwaitRead s (ReadRejects # rest)) =
     (finally_block hf (catch_clause h), None)"
| "resume parse tostr hf h (AwaitRead s (Chunk chunk # rest)) =
     (let hs' = process_lines parse tostr (h, s) (lines_of chunk)
      in if doneReading (snd hs') then (finally_block hf (fst hs'), None)
         else (fst hs', Some (AwaitRead (snd hs') rest)))"

text \<open>The number of resumptions a task can still need.\<close>

fun pending :: "task \<Rightarrow> nat" where
  "pending (AwaitFetch FetchRejects) = 1"
| "pending (AwaitFetch (Response ok None)) = 1"
| "pending (AwaitFetch (Response ok (Some reads))) = length reads + 2"
| "pending (AwaitRead s reads) = length reads + 1"

text \<open>
  A task resumed again and again, nothing else touching the hook in between, until the
  function returns; and \<^verbatim>\<open>sendAudioToAPI\<close> run in that way from its call on. What the
  caller observes is the hook after it: the calls of \<^verbatim>\<open>onNewTranscription\<close> and the
  spinner.
\<close>

function uninterrupted ::
  "(jsstring \<Rightarrow> json option) \<Rightarrow> (json \<Rightarrow> jsstring) \<Rightarrow> bool \<Rightarrow> hook \<Rightarrow> task \<Rightarrow> hook" where
  "uninterrupted parse tostr hf h t =
     (case resume parse tostr hf h t of
        (h', None) \<Rightarrow> h'
      | (h', Some t') \<Rightarrow> uninterrupted parse tostr hf h' t')"
  by pat_completeness auto

termination
proof (relation "measure (\<lambda>(parse, tostr, hf, h, t). pending t)"; simp)
  fix parse :: "jsstring \<Rightarrow> json option" and tostr :: "json \<Rightarrow> jsstring"
    and hf h t h' t'
  assume "(h', Some t') = resume parse tostr hf h t"
  then have r: "resume parse tostr hf h t = (h', Some t')" by simp
  show "pending t' < pending t"
  proof (cases t)
    case (AwaitFetch res)
    with r show ?thesis
      by (cases res) (auto split: if_splits option.splits)
  next
    case (AwaitRead s reads)
    show ?thesis
    proof (cases reads)
      case Nil
      with r AwaitRead show ?thesis by simp
    next
      case (Cons rd rest)
      with r AwaitRead show ?thesis
        by (cases rd) (auto simp add: Let_def split: if_splits)
    qed
  qed
qed

definition sendAudioToAPI ::
  "(jsstring \<Rightarrow> json option) \<Rightarrow> (json \<Rightarrow> jsstring) \<Rightarrow> bool \<Rightarrow> hook \<Rightarrow> response \<Rightarrow> hook" where
  "sendAudioToAPI parse tostr isHandsfreeRef h res =
     uninterrupted parse tostr isHandsfreeRef (fst (call h res)) (snd (call h res))"

text \<open>
  Calls that overlap. An event is a call of \<^verbatim>\<open>sendAudioToAPI\<close> (by the \<^verbatim>\<open>onstop\<close> handler
  of a recorder) with what its fetch will give, or the resumption of the call with a
  given number, with the value \<^verbatim>\<open>isHandsfreeRef\<close> has at that moment. The state is the
  hook and the tasks of the calls made, in order (\<open>None\<close> for a call that has returned).
\<close>

datatype upload_event = Call response | Resume nat bool

fun upload_step ::
  "(jsstring \<Rightarrow> json option) \<Rightarrow> (json \<Rightarrow> jsstring) \<Rightarrow> hook \<times> task option list \<Rightarrow>
   upload_event \<Rightarrow> hook \<times> task option list" where
  "upload_step parse tostr (h, ts) (Call res) =
     (fst (call h res), ts @ [Some (snd (call h res))])"
| "upload_step parse tostr (h, ts) (Resume i hf) =
     (if i < length ts
      then (case ts ! i of
              None \<Rightarrow> (h, ts)
            | Some t \<Rightarrow>
                (fst (resume parse tostr hf h t), ts[i := snd (resume parse tostr hf h t)]))
      else (h, ts))"

definition uploads_run ::
  "(jsstring \<Rightarrow> json option) \<Rightarrow> (json \<Rightarrow> jsstring) \<Rightarrow> hook \<Rightarrow> upload_event list \<Rightarrow>
   hook \<times> task option list" where
  "uploads_run parse tostr h es = foldl (upload_step parse tostr) (h, []) es"

definition fresh_hook :: hook where
  "fresh_hook = \<lparr>emittedRef = False, transcriptions = [], spinner_stopped = False\<rparr>"

text \<open>
  The stream as the specification sees it: a sequence of event lines. A line is the
  terminal sentinel, a text delta, a usage event, or something else.
\<close>

definition is_done :: "jsstring \<Rightarrow> bool" where
  "is_done line \<longleftrightarrow>
     startsWith line (js ''data: '') \<and> trim (drop 6 line) = js ''[DONE]''"

definition event_of :: "(jsstring \<Rightarrow> json option) \<Rightarrow> jsstring \<Rightarrow> json option" where
  "event_of parse line =
     (if startsWith line (js ''data: '') then parse (trim (drop 6 line)) else None)"

definition is_delta :: "json \<Rightarrow> bool" where
  "is_delta e \<longleftrightarrow>
     get_key (js ''type'') e = Some (JStr (js ''transcript.text.delta''))"

text \<open>The transcript accumulated over a list of lines: the deltas, in order.\<close>

fun transcript ::
  "(jsstring \<Rightarrow> json option) \<Rightarrow> (json \<Rightarrow> jsstring) \<Rightarrow> jsstring \<Rightarrow> jsstring list \<Rightarrow> jsstring" where
  "transcript parse tostr t [] = t"
| "transcript parse tostr t (line # rest) =
     transcript parse tostr
       (case event_of parse line of
          None \<Rightarrow> t
        | Some e \<Rightarrow>
            if is_delta e
            then append_value tostr t (nullish_or (get_key (js ''delta'') e) (JStr []))
            else t)
       rest"

text \<open>The usage seen over a list of lines: that of the last usage event.\<close>

definition usage_of :: "json \<Rightarrow> usage option" where
  "usage_of e =
     (if is_delta e then None
      else case get_key (js ''usage'') e of
             None \<Rightarrow> None
           | Some u \<Rightarrow>
               if is_object u
               then Some \<lparr>cost_t = nullish_or (get_key (js ''cost'') u) (JNum (Finite False 0 0)),
                          promptChar = nullish_or (get_key (js ''prompt_char'') u) (JNum (Finite False 0 0)),
                          latencyMs = nullish_or (get_key (js ''latency_ms'') u) (JNum (Finite False 0 0)),
                          ttfcMs = nullish_or (get_key (js ''ttfc_ms'') u) (JNum (Finite False 0 0))\<rparr>
               else None)"

fun last_usage ::
  "(jsstring \<Rightarrow> json option) \<Rightarrow> usage option \<Rightarrow> jsstring list \<Rightarrow> usage option" where
  "last_usage parse u [] = u"
| "last_usage parse u (line # rest) =
     last_usage parse
       (case event_of parse line of
          None \<Rightarrow> u
        | Some e \<Rightarrow> (case usage_of e of None \<Rightarrow> u | Some v \<Rightarrow> Some v))
       rest"

text \<open>All the lines of a stream of chunks, and those before the first sentinel.\<close>

definition stream_lines :: "jsstring list \<Rightarrow> jsstring list" where
  "stream_lines chunks = concat (map lines_of chunks)"

definition before_done :: "jsstring list \<Rightarrow> jsstring list" where
  "before_done ls = takeWhile (\<lambda>l. \<not> is_done l) ls"

definition has_done :: "jsstring list \<Rightarrow> bool" where
  "has_done ls = list_ex is_done ls"

text \<open>
  The effect of a list of lines without sentinel on the variables, and the effect of the
  sentinel: it ends the reading and, unless the transcript is blank (or something was
  emitted before), emits the transcript with the usage.
\<close>

definition advance ::
  "(jsstring \<Rightarrow> json option) \<Rightarrow> (json \<Rightarrow> jsstring) \<Rightarrow> upload \<Rightarrow> jsstring list \<Rightarrow> upload" where
  "advance parse tostr s ls =
     s\<lparr>fullText := transcript parse tostr (fullText s) ls,
       usage := last_usage parse (usage s) ls\<rparr>"

definition finish :: "hook \<times> upload \<Rightarrow> hook \<times> upload" where
  "finish hs =
     (if \<not> emittedRef (fst hs) \<and> trim (fullText (snd hs)) \<noteq> []
      then ((fst hs)\<lparr>emittedRef := True,
                     transcriptions :=
                       transcriptions (fst hs) @ [(fullText (snd hs), usage (snd hs))]\<rparr>,
            (snd hs)\<lparr>doneReading := True\<rparr>)
      else (fst hs, (snd hs)\<lparr>doneReading := True\<rparr>))"

text \<open>
  Whether reading a body ends in a rejected read (one that comes before any chunk with a
  sentinel), whether a response makes the \<^verbatim>\<open>try\<close> block throw, and the chunks that are
  read: those before the first rejected read, up to the first that holds a sentinel.
\<close>

fun read_throws :: "read list \<Rightarrow> bool" where
  "read_throws [] = False"
| "read_throws (ReadRejects # rest) = True"
| "read_throws (Chunk c # rest) = (if has_done (lines_of c) then False else read_throws rest)"

fun throws :: "response \<Rightarrow> bool" where
  "throws FetchRejects = True"
| "throws (Response ok None) = True"
| "throws (Response ok (Some reads)) = (if ok then read_throws reads else True)"

fun chunks_read :: "read list \<Rightarrow> jsstring list" where
  "chunks_read [] = []"
| "chunks_read (ReadRejects # rest) = []"
| "chunks_read (Chunk c # rest) =
     c # (if has_done (lines_of c) then [] else chunks_read rest)"

fun body_read :: "response \<Rightarrow> jsstring list" where
  "body_read FetchRejects = []"
| "body_read (Response ok None) = []"
| "body_read (Response ok (Some reads)) = chunks_read reads"

text \<open>
  What a stream of chunks makes the function emit, on a hook whose \<^verbatim>\<open>emittedRef\<close> is not
  set: the transcript and the usage of the lines before the first sentinel, if there is a
  sentinel and that transcript is not blank.
\<close>

definition emission ::
  "(jsstring \<Rightarrow> json option) \<Rightarrow> (json \<Rightarrow> jsstring) \<Rightarrow> jsstring list \<Rightarrow>
   (jsstring \<times> usage option) list" where
  "emission parse tostr ls =
     (if has_done ls \<and> trim (transcript parse tostr [] (before_done ls)) \<noteq> []
      then [(transcript parse tostr [] (before_done ls), last_usage parse None (before_done ls))]
      else [])"

text \<open>
  Event lines used in the examples, and what \<^verbatim>\<open>JSON.parse\<close> returns for their payloads.
\<close>

definition line_hello :: jsstring where
  \<open>line_hello = js ''data: {"type":"transcript.text.delta","delta":"Hello "}''\<close>

definition line_world :: jsstring where
  \<open>line_world = js ''data: {"type":"transcript.text.delta","delta":"world"}''\<close>

definition line_usage :: jsstring where
  \<open>line_usage = js ''data: {"usage":{"cost":0.5,"prompt_char":11}}''\<close>

definition line_garbled :: jsstring where
  "line_garbled = js ''data: {type:''"

definition delta_event :: "jsstring \<Rightarrow> json" where
  "delta_event d =
     JObj [(js ''type'', JStr (js ''transcript.text.delta'')), (js ''delta'', JStr d)]"

definition sample_parse :: "jsstring \<Rightarrow> json option" where
  "sample_parse =
     map_of
       [(drop 6 line_hello, delta_event (js ''Hello '')),
        (drop 6 line_world, delta_event (js ''world'')),
        (drop 6 line_usage,
           JObj [(js ''usage'',
                  JObj [(js ''cost'', JNum (num 1 2)), (js ''prompt_char'', JNum (num 11 1))])])]"

text \<open>
  A sample stream: two chunks, the sentinel in the second, followed by a second sentinel.
\<close>

definition sample_stream :: "jsstring list" where
  "sample_stream =
     [line_hello @ [10] @ line_usage @ [10],
      line_world @ [10, 10] @ js ''data: [DONE]'' @ [10] @ js ''data: [DONE]'' @ [10]]"

text \<open>A chunk that holds whole lines: it is empty or ends with a line feed.\<close>

definition whole_lines :: "jsstring \<Rightarrow> bool" where
  "whole_lines chunk \<longleftrightarrow> chunk = [] \<or> last chunk = 10"


text \<open>
  Further sample streams: the sentinel alone; a delta and then the sentinel, cut in two
  by the boundary between two chunks; a delta and the sentinel in one chunk; an event that
  does not parse, then the sentinel; a delta and then the end of the stream.
\<close>

definition blank_stream :: "jsstring list" where
  "blank_stream = [js ''data: [DONE]'' @ [10]]"

definition cut_stream :: "jsstring list" where
  "cut_stream = [line_hello @ [10] @ js ''data: [DO'', js ''NE]'' @ [10]]"

definition hello_stream :: "jsstring list" where
  "hello_stream = [line_hello @ [10] @ js ''data: [DONE]'' @ [10]]"

definition world_stream :: "jsstring list" where
  "world_stream = [line_world @ [10] @ js ''data: [DONE]'' @ [10]]"

definition garbled_stream :: "jsstring list" where
  "garbled_stream = [line_garbled @ [10] @ js ''data: [DONE]'' @ [10]]"

definition truncated_stream :: "jsstring list" where
  "truncated_stream = [line_hello @ [10]]"

text \<open>
  Two uploads that overlap: the second is called while the first waits for its response;
  then each gets its response and reads its one chunk, the first before the second.
\<close>

definition overlapping :: "upload_event list" where
  "overlapping =
     [Call (Response True (Some (map Chunk hello_stream))),
      Call (Response True (Some (map Chunk world_stream))),
      Resume 0 False, Resume 1 False, Resume 0 False, Resume 1 False]"

text \<open>
  The calls among the events of a run, the tasks of a state that have not returned, and
  a task that is still reading.
\<close>

fun is_call :: "upload_event \<Rightarrow> bool" where
  "is_call (Call res) = True"
| "is_call (Resume i hf) = False"

fun live :: "task option \<Rightarrow> nat" where
  "live None = 0"
| "live (Some t) = 1"

fun reading :: "task option \<Rightarrow> bool" where
  "reading (Some (AwaitRead s reads)) = (\<not> doneReading s)"
| "reading t = True"
section \<open>TTS player (\<^verbatim>\<open>src/components/chat/hooks/useTTSPlayer.ts\<close>)\<close>

subsection \<open>The playback queue\<close>

text \<open>
  A \<^verbatim>\<open>QueueItem\<close>. An \<^verbatim>\<open>AudioBuffer\<close> and a completion callback are known by a number;
  \<open>onComplete = None\<close> is \<^verbatim>\<open>undefined\<close>.
\<close>

record item =
  buffer :: nat
  baseMessageId :: jsstring
  isHandsfree :: bool
  lastChunk :: bool
  onComplete :: "nat option"

text \<open>
  What the pipeline lets the outside observe, in order: the window events
  \<^verbatim>\<open>tts-started-flag\<close> and \<^verbatim>\<open>tts-playback-started\<close>, a buffer source node started on the
  audio graph (node and buffer), the 50 ms timeouts set by a node's \<^verbatim>\<open>onended\<close> (the
  caller's completion callback, the dispatch of \<^verbatim>\<open>tts-oncomplete\<close>), the immediate
  dispatch of \<^verbatim>\<open>tts-oncomplete\<close> by \<^verbatim>\<open>playTTS\<close>, and a rejected \<^verbatim>\<open>maybeStartNext\<close>.
\<close>

datatype signal =
    TtsStartedFlag
  | TtsPlaybackStarted
  | NodeStarted nat nat
  | CompleteCallbackIn50 nat
  | TtsOnCompleteIn50
  | TtsOnComplete
  | Rejected

text \<open>
  The callbacks the queue hands to \<^verbatim>\<open>queueMicrotask\<close>: the dispatch of
  \<^verbatim>\<open>tts-playback-started\<close> and \<^verbatim>\<open>void maybeStartNext()\<close>.
\<close>

datatype microtask = DispatchPlaybackStarted | CallMaybeStartNext

text \<open>
  The refs and states of the hook that the queue uses, and the asynchronous side of
  \<^verbatim>\<open>maybeStartNext\<close>. That function is \<^verbatim>\<open>async\<close>: it runs up to
  \<^verbatim>\<open>await ensurePlaybackReady()\<close>, is suspended there, goes on later, and (when the chunk
  is the first of an idle pipeline and the audio element carries a stream) is suspended
  once more at \<^verbatim>\<open>await el.play()\<close>. Other callbacks run in between. \<open>awaiting_ready\<close>
  counts the invocations suspended at the first \<^verbatim>\<open>await\<close> (they hold no local state
  yet), \<open>awaiting_play\<close> lists those suspended at the second with their node and item,
  \<open>microtasks\<close> lists the queued microtasks, the oldest first.
  \<open>active\<close> lists the nodes started on the audio graph that have neither ended nor been
  stopped: the chunks that are scheduled or sounding. \<open>ending\<close> lists the started nodes
  whose \<^verbatim>\<open>onended\<close> is still to fire, with the item the handler closes over.
\<close>

record player =
  playQueue :: "item list"
  isDequeuing :: bool
  currentNode :: "nat option"
  isPlaying :: bool
  currentMessageId :: "jsstring option"
  muted :: bool
  created :: nat
  active :: "nat list"
  ending :: "(nat \<times> item) list"
  awaiting_ready :: nat
  awaiting_play :: "(nat \<times> item) list"
  microtasks :: "microtask list"
  signals :: "signal list"

definition idle_player :: player where
  "idle_player =
     \<lparr>playQueue = [], isDequeuing = False, currentNode = None, isPlaying = False,
      currentMessageId = None, muted = True, created = 0, active = [], ending = [],
      awaiting_ready = 0, awaiting_play = [], microtasks = [], signals = []\<rparr>"

text \<open>\<^verbatim>\<open>maybeStartNext\<close> up to its first \<^verbatim>\<open>await\<close>: the two guards.\<close>

definition maybeStartNext :: "player \<Rightarrow> player" where
  "maybeStartNext s =
     (if isDequeuing s then s
      else if length (playQueue s) = 0 then s
      else s\<lparr>awaiting_ready := Suc (awaiting_ready s)\<rparr>)"

text \<open>
  The end of \<^verbatim>\<open>maybeStartNext\<close>, from \<^verbatim>\<open>if (wasIdle)\<close> on: the notifications of an idle
  pipeline, then \<^verbatim>\<open>node.start(startAt)\<close>. Of the notifications \<^verbatim>\<open>tts-started-flag\<close> is
  dispatched at once and \<^verbatim>\<open>tts-playback-started\<close> from a microtask, that is after
  \<^verbatim>\<open>node.start\<close>; it carries the audio element or, where that has no stream, the
  stream destination, which exists once the pipeline is primed. \<open>starts\<close> tells whether
  \<^verbatim>\<open>node.start\<close> succeeds; when it throws, the \<^verbatim>\<open>catch\<close> clause releases the guard and
  queues a retry.
\<close>

definition start_node :: "bool \<Rightarrow> bool \<Rightarrow> nat \<Rightarrow> item \<Rightarrow> player \<Rightarrow> player" where
  "start_node starts wasIdle node it s =
     (let s1 = (if wasIdle
                then s\<lparr>isPlaying := True, currentMessageId := Some (baseMessageId it),
                       signals := signals s @ [TtsStartedFlag],
                       microtasks := microtasks s @ [DispatchPlaybackStarted]\<rparr>
                else s)
      in if starts
         then s1\<lparr>active := active s1 @ [node], ending := ending s1 @ [(node, it)],
                 signals := signals s1 @ [NodeStarted node (buffer it)]\<rparr>
         else s1\<lparr>isDequeuing := False, currentNode := None,
                 microtasks := microtasks s1 @ [CallMaybeStartNext]\<rparr>)"

text \<open>
  \<^verbatim>\<open>maybeStartNext\<close> after \<^verbatim>\<open>await ensurePlaybackReady()\<close> has given \<open>ok\<close>: the guard is
  set, the head of the queue is taken (\<^verbatim>\<open>shift()\<close> on an empty queue gives
  \<^verbatim>\<open>undefined\<close>, whose destructuring throws: the promise is rejected with the guard left
  set), a node is created and becomes the current node. \<open>hasStream\<close> tells whether the
  audio element has a stream attached (it has not on Android).
\<close>

definition after_ready :: "bool \<Rightarrow> bool \<Rightarrow> bool \<Rightarrow> player \<Rightarrow> player" where
  "after_ready hasStream ok starts s =
     (if \<not> ok then s
      else
        let s1 = s\<lparr>isDequeuing := True\<rparr> in
        case playQueue s1 of
          [] \<Rightarrow> s1\<lparr>signals := signals s1 @ [Rejected]\<rparr>
        | it # rest \<Rightarrow>
            let node = Suc (created s1);
                wasIdle = (currentNode s1 = None);
                s2 = s1\<lparr>playQueue := rest, created := node, currentNode := Some node\<rparr>
            in if wasIdle \<and> hasStream
               then s2\<lparr>muted := False, awaiting_play := awaiting_play s2 @ [(node, it)]\<rparr>
               else start_node starts wasIdle node it s2)"

text \<open>\<^verbatim>\<open>node.onended\<close> of the node started for \<open>it\<close>.\<close>

definition on_ended :: "nat \<Rightarrow> item \<Rightarrow> player \<Rightarrow> player" where
  "on_ended node it s =
     (let s1 = (if currentNode s = Some node then s\<lparr>currentNode := None\<rparr> else s);
          s2 = (case onComplete it of
                  None \<Rightarrow> s1
                | Some cb \<Rightarrow>
                    if lastChunk it
                    then s1\<lparr>signals := signals s1 @ [CompleteCallbackIn50 cb]\<rparr>
                    else s1);
          s3 = (if length (playQueue s2) = 0
                then
                  (let s4 = s2\<lparr>isPlaying := False, currentMessageId := None\<rparr>;
                       s5 = (if isHandsfree it
                             then s4\<lparr>signals := signals s4 @ [TtsOnCompleteIn50]\<rparr>
                             else s4)
                   in s5\<lparr>muted := True\<rparr>)
                else s2)
      in s3\<lparr>isDequeuing := False, microtasks := microtasks s3 @ [CallMaybeStartNext]\<rparr>)"

text \<open>\<^verbatim>\<open>enqueueBuffer\<close>: push, then \<^verbatim>\<open>void maybeStartNext()\<close>.\<close>

definition enqueueBuffer :: "item \<Rightarrow> player \<Rightarrow> player" where
  "enqueueBuffer it s = maybeStartNext (s\<lparr>playQueue := playQueue s @ [it]\<rparr>)"

text \<open>
  \<^verbatim>\<open>teardownPipeline\<close> (called by \<^verbatim>\<open>stopTTS\<close>): the current node is stopped (it will
  still fire \<^verbatim>\<open>onended\<close>), the queue is emptied and the flags are reset.
\<close>

definition teardownPipeline :: "player \<Rightarrow> player" where
  "teardownPipeline s =
     s\<lparr>active := (case currentNode s of None \<Rightarrow> active s | Some n \<Rightarrow> removeAll n (active s)),
       currentNode := None, playQueue := [], isDequeuing := False, isPlaying := False,
       currentMessageId := None\<rparr>"

text \<open>The oldest queued microtask runs.\<close>

definition run_microtask :: "player \<Rightarrow> player" where
  "run_microtask s =
     (case microtasks s of
        [] \<Rightarrow> s
      | DispatchPlaybackStarted # ms \<Rightarrow>
          s\<lparr>microtasks := ms, signals := signals s @ [TtsPlaybackStarted]\<rparr>
      | CallMaybeStartNext # ms \<Rightarrow> maybeStartNext (s\<lparr>microtasks := ms\<rparr>))"

text \<open>
  What \<^verbatim>\<open>playTTS\<close> does to the pipeline between two of its own \<^verbatim>\<open>await\<close>s.
\<close>

datatype action = Enqueue item | DispatchComplete

text \<open>
  The callbacks of a run: an action of a \<^verbatim>\<open>playTTS\<close> call; \<open>Ready ok starts\<close>, the
  resumption of an invocation suspended at \<^verbatim>\<open>await ensurePlaybackReady()\<close>; \<open>Played node
  starts\<close>, the resumption of the invocation suspended at \<^verbatim>\<open>await el.play()\<close> with that
  node; \<open>Ended node\<close>, the \<^verbatim>\<open>ended\<close> event of a started node; a queued microtask; a
  call of \<^verbatim>\<open>teardownPipeline\<close>.
\<close>

datatype player_event =
    Act action
  | Ready bool bool
  | Played nat bool
  | Ended nat
  | Microtask
  | Teardown

fun player_step :: "bool \<Rightarrow> player \<Rightarrow> player_event \<Rightarrow> player" where
  "player_step hasStream s (Act (Enqueue it)) = enqueueBuffer it s"
| "player_step hasStream s (Act DispatchComplete) = s\<lparr>signals := signals s @ [TtsOnComplete]\<rparr>"
| "player_step hasStream s (Ready ok starts) =
     (if awaiting_ready s = 0 then s
      else after_ready hasStream ok starts (s\<lparr>awaiting_ready := awaiting_ready s - 1\<rparr>))"
| "player_step hasStream s (Played node starts) =
     (case map_of (awaiting_play s) node of
        None \<Rightarrow> s
      | Some it \<Rightarrow>
          start_node starts True node it
            (s\<lparr>awaiting_play := filter (\<lambda>p. fst p \<noteq> node) (awaiting_play s)\<rparr>))"
| "player_step hasStream s (Ended node) =
     (case map_of (ending s) node of
        None \<Rightarrow> s
      | Some it \<Rightarrow>
          on_ended node it
            (s\<lparr>ending := filter (\<lambda>p. fst p \<noteq> node) (ending s),
               active := removeAll node (active s)\<rparr>))"
| "player_step hasStream s Microtask = run_microtask s"
| "player_step hasStream s Teardown = teardownPipeline s"

definition player_run :: "bool \<Rightarrow> player \<Rightarrow> player_event list \<Rightarrow> player" where
  "player_run hasStream s es = foldl (player_step hasStream) s es"

subsection \<open>Schedules without interleaving\<close>

text \<open>
  A schedule in which nothing falls between a call of \<^verbatim>\<open>maybeStartNext\<close> and its
  resumptions: its events are the enqueueing of an item and the end of the active node,
  and after each of them the pipeline settles (the queued microtask runs, the suspended
  invocation resumes from \<^verbatim>\<open>await ensurePlaybackReady()\<close> and from \<^verbatim>\<open>await el.play()\<close>, the
  microtask it queued runs) before the next event. \<open>started\<close> lists the buffers of the nodes started, in order;
  \<open>enqueued\<close> lists the buffers enqueued, in order; \<open>settled\<close> describes the pipeline
  between two events of such a schedule.
\<close>

datatype serial_event = SEnqueue item | SEnded

definition settle :: "bool \<Rightarrow> player \<Rightarrow> player" where
  "settle hasStream s =
     player_run hasStream s
       [Microtask, Ready True True, Played (Suc (created s)) True, Microtask]"

fun serial_run :: "bool \<Rightarrow> player \<Rightarrow> serial_event list \<Rightarrow> player" where
  "serial_run hasStream s [] = s"
| "serial_run hasStream s (SEnqueue it # es) =
     serial_run hasStream (settle hasStream (enqueueBuffer it s)) es"
| "serial_run hasStream s (SEnded # es) =
     (case active s of
        [] \<Rightarrow> serial_run hasStream s es
      | n # _ \<Rightarrow> serial_run hasStream (settle hasStream (player_step hasStream s (Ended n))) es)"

fun started :: "signal list \<Rightarrow> nat list" where
  "started [] = []"
| "started (NodeStarted n b # gs) = b # started gs"
| "started (g # gs) = started gs"

fun enqueued :: "serial_event list \<Rightarrow> nat list" where
  "enqueued [] = []"
| "enqueued (SEnqueue it # es) = buffer it # enqueued es"
| "enqueued (SEnded # es) = enqueued es"

definition settled :: "player \<Rightarrow> bool" where
  "settled s \<longleftrightarrow>
     awaiting_ready s = 0 \<and> awaiting_play s = [] \<and> microtasks s = [] \<and>
     (if isDequeuing s
      then (\<exists>it. active s = [created s] \<and> ending s = [(created s, it)]
                \<and> currentNode s = Some (created s))
      else active s = [] \<and> ending s = [] \<and> currentNode s = None \<and> playQueue s = [])"

subsection \<open>\<^verbatim>\<open>playTTS\<close>\<close>

text \<open>
  The usage of a chunk, read from the response header by \<^verbatim>\<open>fetchAndDecode\<close>. A field
  the header does not give is \<^verbatim>\<open>undefined\<close>, here \<open>None\<close>.
\<close>

record audioUsage =
  cost :: "number option"
  char_count :: "number option"
  latency :: "number option"

text \<open>\<^verbatim>\<open>DecodedAudio\<close>: the buffer and the usage (\<open>None\<close> is \<^verbatim>\<open>null\<close>).\<close>

record decoded =
  dbuffer :: nat
  dusage :: "audioUsage option"

text \<open>How an awaited promise settles: it rejects, or it resolves to a value.\<close>

datatype 'a promise = Throws | Gives 'a

text \<open>\<^verbatim>\<open>x ?? 0\<close> on a number.\<close>

definition or_zero :: "number option \<Rightarrow> number" where
  "or_zero x = (case x of None \<Rightarrow> Finite False 0 0 | Some v \<Rightarrow> v)"

text \<open>\<^verbatim>\<open>d?.usage?.audioUsage.f\<close> for a fetch result \<open>d\<close> that may be \<^verbatim>\<open>null\<close>.\<close>

definition usage_field ::
  "(audioUsage \<Rightarrow> number option) \<Rightarrow> decoded option \<Rightarrow> number option" where
  "usage_field f d =
     (case d of
        None \<Rightarrow> None
      | Some r \<Rightarrow> (case dusage r of None \<Rightarrow> None | Some u \<Rightarrow> f u))"

text \<open>
  The end of \<^verbatim>\<open>playTTS\<close>, from \<^verbatim>\<open>const cost\<close> on: the usage returned for the fetch
  results \<open>intro\<close> and \<open>rem\<close> of the two chunks.
\<close>

definition aggregate :: "decoded \<Rightarrow> decoded option \<Rightarrow> audioUsage option" where
  "aggregate intro rem =
     (let cost_sum = js_add (or_zero (usage_field cost (Some intro)))
                            (or_zero (usage_field cost rem));
          char_sum = js_add (or_zero (usage_field char_count (Some intro)))
                            (or_zero (usage_field char_count rem));
          a = usage_field latency (Some intro);
          b = usage_field latency rem;
          lat = (case (a, b) of
                   (Some x, Some y) \<Rightarrow> Math_round (js_div (js_add x y) (num 2 1))
                 | (Some x, None) \<Rightarrow> x
                 | (None, Some y) \<Rightarrow> y
                 | (None, None) \<Rightarrow> Finite False 0 0)
      in if dusage intro \<noteq> None \<or> b \<noteq> None \<or> truthy cost_sum \<or> truthy char_sum
         then Some \<lparr>cost = Some cost_sum, char_count = Some char_sum, latency = Some lat\<rparr>
         else None)"

text \<open>
  \<^verbatim>\<open>playTTS(messageId, text, isHandsfree, onComplete)\<close>. From its surroundings it takes
  the states \<^verbatim>\<open>currentMessageId\<close> and \<^verbatim>\<open>isPlaying\<close> it closes over, how
  \<^verbatim>\<open>ensurePlaybackReady()\<close> settles, and \<open>fetch\<close>, how \<^verbatim>\<open>fetchAndDecode\<close> settles for a
  chunk key and text: it resolves to the decoded audio or to \<^verbatim>\<open>null\<close> (a response that
  is not \<^verbatim>\<open>ok\<close>, an empty blob, a decoding error), or it rejects (\<^verbatim>\<open>fetch\<close> or
  \<^verbatim>\<open>response.blob()\<close> rejects, outside any \<^verbatim>\<open>try\<close>). \<^verbatim>\<open>playTTS\<close> has no \<^verbatim>\<open>try\<close> of its
  own: an awaited promise that rejects makes it reject. It gives the actions on the
  pipeline, in order (other callbacks may run between two of them, for the function
  awaits after each), and how its own promise settles.
\<close>

definition playTTS ::
  "jsstring option \<Rightarrow> bool \<Rightarrow> bool promise \<Rightarrow> (jsstring \<Rightarrow> jsstring \<Rightarrow> decoded option promise) \<Rightarrow>
   jsstring \<Rightarrow> jsstring \<Rightarrow> bool \<Rightarrow> nat option \<Rightarrow> action list \<times> audioUsage option promise" where
  "playTTS curMessageId playing ready fetch messageId text isHandsfreeFlag onCompleteCb =
     (if curMessageId = Some messageId \<and> playing then ([], Gives None)
      else
        case ready of
          Throws \<Rightarrow> ([], Throws)
        | Gives ok \<Rightarrow>
            if \<not> ok then ([], Gives None)
            else
              let introChunk = fst (chunkTextForTTS text);
                  remainder = snd (chunkTextForTTS text);
                  introId = messageId @ js ''-0'';
                  remainderId = messageId @ js ''-1''
              in case fetch introId introChunk of
                   Throws \<Rightarrow> ([], Throws)
                 | Gives None \<Rightarrow> ([], Gives None)
                 | Gives (Some intro) \<Rightarrow>
                     let enq_intro =
                           Enqueue \<lparr>buffer = dbuffer intro, baseMessageId = messageId,
                                    isHandsfree = (remainder = None \<and> isHandsfreeFlag),
                                    lastChunk = (remainder = None),
                                    onComplete =
                                      (if remainder = None then onCompleteCb else None)\<rparr>
                     in case remainder of
                          None \<Rightarrow> ([enq_intro], Gives (aggregate intro None))
                        | Some r \<Rightarrow>
                            (case fetch remainderId r of
                               Throws \<Rightarrow> ([enq_intro], Throws)
                             | Gives None \<Rightarrow>
                                 ([enq_intro]
                                    @ (if isHandsfreeFlag then [DispatchComplete] else []),
                                  Gives (dusage intro))
                             | Gives (Some rem) \<Rightarrow>
                                 ([enq_intro,
                                   Enqueue \<lparr>buffer = dbuffer rem, baseMessageId = messageId,
                                            isHandsfree = isHandsfreeFlag, lastChunk = True,
                                            onComplete = onCompleteCb\<rparr>],
                                  Gives (aggregate intro (Some rem)))))"

subsection \<open>Sample calls\<close>

text \<open>
  Fetch results used in the examples: every chunk decoded (the buffer is known by the
  length of its text), without usage; the intro decoded and the remainder failed, with
  \<^verbatim>\<open>null\<close> or with a rejection; both decoded with the usages of the specification's
  example.
\<close>

definition fetch_cached :: "jsstring \<Rightarrow> jsstring \<Rightarrow> decoded option promise" where
  "fetch_cached key text = Gives (Some \<lparr>dbuffer = length text, dusage = None\<rparr>)"

definition is_intro_key :: "jsstring \<Rightarrow> bool" where
  "is_intro_key key \<longleftrightarrow> drop (length key - 2) key = js ''-0''"

definition intro_usage :: audioUsage where
  "intro_usage =
     \<lparr>cost = Some (num 1 1000), char_count = Some (num 30 1), latency = Some (num 100 1)\<rparr>"

definition fetch_intro_only :: "jsstring \<Rightarrow> jsstring \<Rightarrow> decoded option promise" where
  "fetch_intro_only key text =
     (if is_intro_key key
      then Gives (Some \<lparr>dbuffer = length text, dusage = Some intro_usage\<rparr>)
      else Gives None)"

definition fetch_intro_rejects :: "jsstring \<Rightarrow> jsstring \<Rightarrow> decoded option promise" where
  "fetch_intro_rejects key text =
     (if is_intro_key key
      then Gives (Some \<lparr>dbuffer = length text, dusage = Some intro_usage\<rparr>)
      else Throws)"

definition fetch_both :: "number \<Rightarrow> number \<Rightarrow> jsstring \<Rightarrow> jsstring \<Rightarrow> decoded option promise" where
  "fetch_both l1 l2 key text =
     (if is_intro_key key
      then Gives (Some \<lparr>dbuffer = length text,
                        dusage = Some \<lparr>cost = Some (num 1 1000), char_count = Some (num 30 1),
                                        latency = Some l1\<rparr>\<rparr>)
      else Gives (Some \<lparr>dbuffer = length text,
                        dusage = Some \<lparr>cost = Some (num 2 1000), char_count = Some (num 50 1),
                                        latency = Some l2\<rparr>\<rparr>))"

text \<open>
  Two turns \<open>a\<close> and \<open>b\<close> with short texts, played by two calls of \<^verbatim>\<open>playTTS\<close>: each
  call enqueues its single chunk, and the two invocations of \<^verbatim>\<open>maybeStartNext\<close> then
  resume from \<^verbatim>\<open>await ensurePlaybackReady()\<close>.
\<close>

definition two_turns :: "player_event list" where
  "two_turns =
     map Act (fst (playTTS None False (Gives True) fetch_cached (js ''a'') (js ''Hi.'') False None))
     @ map Act
         (fst (playTTS None False (Gives True) fetch_cached (js ''b'') (js ''Hello!'') False None))
     @ [Ready True True, Ready True True]"

text \<open>
  A chunk ends while another is queued, and a third is enqueued before the
  \<^verbatim>\<open>maybeStartNext\<close> of the \<^verbatim>\<open>onended\<close> handler has resumed: the first chunk is
  enqueued and started (and its \<^verbatim>\<open>tts-playback-started\<close> dispatched); the second is
  enqueued (the guard holds it back); the first ends, which releases the guard and
  queues a microtask; the microtask runs up to its \<^verbatim>\<open>await\<close>; the third chunk is
  enqueued, and its \<^verbatim>\<open>maybeStartNext\<close> passes the guard as well; both resume.
\<close>

definition chunk_of :: "nat \<Rightarrow> item" where
  "chunk_of b =
     \<lparr>buffer = b, baseMessageId = js ''t'' @ [48 + b], isHandsfree = False, lastChunk = True,
      onComplete = None\<rparr>"

definition ended_and_enqueue :: "player_event list" where
  "ended_and_enqueue =
     [Act (Enqueue (chunk_of 1)), Ready True True, Microtask, Act (Enqueue (chunk_of 2)),
      Ended 1, Microtask, Act (Enqueue (chunk_of 3)), Ready True True, Ready True True]"

text \<open>
  A handsfree turn \<open>m\<close> on the sample text, whose remainder fails. Where the fetch of
  the remainder resolves to \<^verbatim>\<open>null\<close>: the intro is enqueued and started, then
  \<^verbatim>\<open>playTTS\<close> learns of the failure. Where that fetch rejects: the intro is enqueued,
  started and played to its end.
\<close>

definition remainder_fails :: "action list" where
  "remainder_fails =
     fst (playTTS None False (Gives True) fetch_intro_only (js ''m'') sample_text True (Some 0))"

definition intro_playing :: player where
  "intro_playing =
     player_run False idle_player
       [Act (hd remainder_fails), Ready True True, Microtask, Act (last remainder_fails)]"

definition remainder_rejects :: "action list" where
  "remainder_rejects =
     fst (playTTS None False (Gives True) fetch_intro_rejects (js ''m'') sample_text True
            (Some 0))"

definition intro_ended :: player where
  "intro_ended =
     player_run False idle_player
       (map Act remainder_rejects @ [Ready True True, Microtask, Ended 1, Microtask])"

text \<open>
  The signals of playback completion among the signals: a dispatch of
  \<^verbatim>\<open>tts-oncomplete\<close> (immediate or through the 50 ms timeout) and a call of the caller's
  completion callback (which in handsfree mode dispatches \<^verbatim>\<open>tts-oncomplete\<close> as well).
  Further: the actions among the events of a run; the items a state holds; an item
  whose end signals no completion.
\<close>

fun is_completion :: "signal \<Rightarrow> bool" where
  "is_completion TtsOnComplete = True"
| "is_completion TtsOnCompleteIn50 = True"
| "is_completion (CompleteCallbackIn50 cb) = True"
| "is_completion g = False"

definition complete_signals :: "signal list \<Rightarrow> signal list" where
  "complete_signals xs = filter is_completion xs"

fun actions_of :: "player_event list \<Rightarrow> action list" where
  "actions_of [] = []"
| "actions_of (Act a # es) = a # actions_of es"
| "actions_of (e # es) = actions_of es"

definition items_of :: "player \<Rightarrow> item list" where
  "items_of s = playQueue s @ map snd (ending s) @ map snd (awaiting_play s)"

definition quiet :: "item \<Rightarrow> bool" where
  "quiet it \<longleftrightarrow> \<not> isHandsfree it \<and> onComplete it = None"

definition quiet_items :: "player \<Rightarrow> bool" where
  "quiet_items s = list_all quiet (items_of s)"

fun quiet_action :: "action \<Rightarrow> bool" where
  "quiet_action (Enqueue it) = quiet it"
| "quiet_action DispatchComplete = True"

fun dispatches :: "action list \<Rightarrow> nat" where
  "dispatches [] = 0"
| "dispatches (DispatchComplete # as) = Suc (dispatches as)"
| "dispatches (a # as) = dispatches as"

section \<open>Handsfree orchestrator (\<^verbatim>\<open>src/components/bottomBar/hooks/useHandsfree.ts\<close>)\<close>

text \<open>
  The hook keeps its state in React states and refs. A handler runs atomically; a state
  set by a handler is seen by the effects of the next render, which copy it into the
  ref the VAD callbacks read. The model has one field for each state and ref that the
  handsfree loop uses, with the source's names, and the following bookkeeping of what
  is under way: \<open>tts_isPlaying\<close> is the state \<^verbatim>\<open>isPlaying\<close> of the player;
  \<open>seen_isPlaying\<close> and \<open>seen_isRecording\<close> are the dependencies with which the
  effect on \<^verbatim>\<open>[isPlaying, isRecording, stopTTS]\<close> last ran; \<open>vadStopRef\<close> tells whether
  the ref holds the stop function of a running detector; \<open>mic_requests\<close> counts the
  \<^verbatim>\<open>getUserMedia\<close> calls of \<^verbatim>\<open>onStart\<close> that are not settled; \<open>stopping\<close> counts the
  recorders stopped whose \<^verbatim>\<open>onstop\<close> is still to fire; \<open>uploads\<close> counts the calls of
  \<^verbatim>\<open>sendAudioToAPI\<close>; \<open>rearm_timers\<close> counts the pending 300 ms timers of
  \<^verbatim>\<open>handleTTSComplete\<close>; \<open>tts_stops\<close> counts the calls of \<^verbatim>\<open>stopTTS\<close>.
\<close>

datatype recorder_state = RecInactive | RecRecording

record handsfree =
  isHandsfreeActive :: bool
  isRecording :: bool
  isVADActive :: bool
  isLoading :: bool
  tts_isPlaying :: bool
  seen_isPlaying :: bool
  seen_isRecording :: bool
  suppressVADRef :: bool
  isPlayingRef :: bool
  isLoadingRef :: bool
  isHandsfreeRef :: bool
  blockPlaybackUntilRecordingRef :: bool
  vadArmedRef :: bool
  vadStopRef :: bool
  mediaRecorderRef :: "recorder_state option"
  mic_requests :: nat
  stopping :: nat
  uploads :: nat
  rearm_timers :: nat
  tts_stops :: nat

text \<open>The hook after its first render and effects.\<close>

definition mounted :: handsfree where
  "mounted =
     \<lparr>isHandsfreeActive = False, isRecording = False, isVADActive = False, isLoading = False,
      tts_isPlaying = False, seen_isPlaying = False, seen_isRecording = False,
      suppressVADRef = False, isPlayingRef = False, isLoadingRef = False,
      isHandsfreeRef = False, blockPlaybackUntilRecordingRef = False, vadArmedRef = False,
      vadStopRef = False, mediaRecorderRef = None, mic_requests = 0, stopping = 0,
      uploads = 0, rearm_timers = 0, tts_stops = 0\<rparr>"

text \<open>\<^verbatim>\<open>stopTTS()\<close> as the hook sees it: the player resets \<^verbatim>\<open>isPlaying\<close>.\<close>

definition stopTTS :: "handsfree \<Rightarrow> handsfree" where
  "stopTTS s = s\<lparr>tts_isPlaying := False, tts_stops := Suc (tts_stops s)\<rparr>"

text \<open>\<^verbatim>\<open>vadStopRef.current?.(); vadStopRef.current = null\<close>\<close>

definition release_vad :: "handsfree \<Rightarrow> handsfree" where
  "release_vad s = s\<lparr>vadStopRef := False\<rparr>"

text \<open>
  \<^verbatim>\<open>startVADInternal\<close>: arms once, starts a detector (\<^verbatim>\<open>startVAD\<close>, with the two
  callbacks below) and keeps its stop function.
\<close>

definition startVADInternal :: "handsfree \<Rightarrow> handsfree" where
  "startVADInternal s =
     (if vadArmedRef s then s
      else s\<lparr>vadArmedRef := True, vadStopRef := True, isVADActive := True\<rparr>)"

text \<open>
  The \<^verbatim>\<open>onStart\<close> callback handed to the detector: the guard, then the request for the
  microphone; the recorder is created when that request is granted.
\<close>

definition onStart :: "handsfree \<Rightarrow> handsfree" where
  "onStart s =
     (if suppressVADRef s \<or> isPlayingRef s \<or> isLoadingRef s \<or> \<not> isHandsfreeRef s
         \<or> mediaRecorderRef s = Some RecRecording
      then s
      else s\<lparr>mic_requests := Suc (mic_requests s)\<rparr>)"

definition mic_granted :: "handsfree \<Rightarrow> handsfree" where
  "mic_granted s =
     (if mic_requests s = 0 then s
      else s\<lparr>mic_requests := mic_requests s - 1, mediaRecorderRef := Some RecRecording,
             isRecording := True\<rparr>)"

definition mic_denied :: "handsfree \<Rightarrow> handsfree" where
  "mic_denied s = s\<lparr>mic_requests := mic_requests s - 1\<rparr>"

text \<open>
  \<^verbatim>\<open>stopRecordingAndSend\<close> (the \<^verbatim>\<open>onStop\<close> callback of the detector). On a recorder that
  is already inactive \<^verbatim>\<open>stop()\<close> does nothing or throws, depending on the browser:
  \<open>stop_throws\<close> tells which; when it throws, the rest of the handler is not run.
\<close>

definition stopRecordingAndSend :: "bool \<Rightarrow> handsfree \<Rightarrow> handsfree" where
  "stopRecordingAndSend stop_throws s =
     (case mediaRecorderRef s of
        None \<Rightarrow> s
      | Some RecRecording \<Rightarrow>
          s\<lparr>mediaRecorderRef := Some RecInactive, stopping := Suc (stopping s),
            isRecording := False, suppressVADRef := True, isLoading := True\<rparr>
      | Some RecInactive \<Rightarrow>
          if stop_throws then s
          else s\<lparr>isRecording := False, suppressVADRef := True, isLoading := True\<rparr>)"

text \<open>
  \<^verbatim>\<open>mediaRecorder.onstop\<close>: the blob goes to \<^verbatim>\<open>sendAudioToAPI\<close>, whose \<^verbatim>\<open>finally\<close> block
  stops the spinner outside handsfree mode.
\<close>

definition recorder_onstop :: "handsfree \<Rightarrow> handsfree" where
  "recorder_onstop s =
     (if stopping s = 0 then s
      else s\<lparr>stopping := stopping s - 1, isRecording := False, uploads := Suc (uploads s)\<rparr>)"

definition upload_settled :: "handsfree \<Rightarrow> handsfree" where
  "upload_settled s = (if \<not> isHandsfreeRef s then s\<lparr>isLoading := False\<rparr> else s)"

text \<open>
  The listeners of \<^verbatim>\<open>tts-started-flag\<close> and \<^verbatim>\<open>tts-oncomplete\<close>. They are registered by
  an effect on \<^verbatim>\<open>[isHandsfreeActive]\<close> while that state is true. The timer body of
  \<^verbatim>\<open>handleTTSComplete\<close> tests the \<^verbatim>\<open>isHandsfreeActive\<close> of its closure, which is true.
\<close>

definition handleTTSStart :: "handsfree \<Rightarrow> handsfree" where
  "handleTTSStart s =
     (release_vad (s\<lparr>isLoading := False, isRecording := False, suppressVADRef := True\<rparr>))
       \<lparr>vadArmedRef := False, isVADActive := False\<rparr>"

definition rearm :: "handsfree \<Rightarrow> handsfree" where
  "rearm s =
     (let s1 = s\<lparr>isLoading := False, isRecording := False, suppressVADRef := False\<rparr>
      in if \<not> vadArmedRef s1 then startVADInternal s1 else s1)"

text \<open>\<^verbatim>\<open>setIsHandsfreeActiveWrapped\<close>\<close>

definition setIsHandsfreeActive :: "bool \<Rightarrow> handsfree \<Rightarrow> handsfree" where
  "setIsHandsfreeActive a s =
     (if a
      then s\<lparr>blockPlaybackUntilRecordingRef := True, suppressVADRef := False,
             isHandsfreeActive := True\<rparr>
      else (stopTTS (s\<lparr>blockPlaybackUntilRecordingRef := False\<rparr>))
             \<lparr>isHandsfreeActive := False\<rparr>)"

text \<open>
  \<^verbatim>\<open>handlePlayTTSWrapped\<close> up to its first \<^verbatim>\<open>await\<close>: for a handsfree turn the detector is
  gated and released and a recorder that still records is stopped.
\<close>

definition handlePlayTTS :: "bool \<Rightarrow> handsfree \<Rightarrow> handsfree" where
  "handlePlayTTS isHandsfreeFlag s =
     (if isHandsfreeFlag
      then
        let s1 = (release_vad (s\<lparr>suppressVADRef := True\<rparr>))\<lparr>isVADActive := False\<rparr>
        in if mediaRecorderRef s1 = Some RecRecording
           then s1\<lparr>mediaRecorderRef := Some RecInactive, stopping := Suc (stopping s1),
                   isRecording := False\<rparr>
           else s1
      else s)"

text \<open>
  The effects after a render, in the order of the source: the copy of \<^verbatim>\<open>isPlaying\<close>
  into its ref; the effect that, after handsfree was switched on, stops a playback that
  starts before any recording and arms the detector (it runs when \<^verbatim>\<open>isPlaying\<close> or
  \<^verbatim>\<open>isRecording\<close> changed); the copy of \<^verbatim>\<open>isLoading\<close> into its ref; the effect on
  \<^verbatim>\<open>[isHandsfreeActive]\<close>, which runs when that state changed (the ref holds the value it
  last ran with).
\<close>

definition block_effect :: "handsfree \<Rightarrow> handsfree" where
  "block_effect s =
     (if \<not> blockPlaybackUntilRecordingRef s then s
      else if isRecording s then s\<lparr>blockPlaybackUntilRecordingRef := False\<rparr>
      else if tts_isPlaying s
      then
        (let s1 = (stopTTS s)\<lparr>blockPlaybackUntilRecordingRef := False, suppressVADRef := False\<rparr>
         in if \<not> vadArmedRef s1 then startVADInternal s1 else s1)
      else s)"

definition handsfree_effect :: "bool \<Rightarrow> handsfree \<Rightarrow> handsfree" where
  "handsfree_effect stop_throws s =
     (let s1 = s\<lparr>isHandsfreeRef := isHandsfreeActive s\<rparr>
      in if isHandsfreeActive s1
         then (if \<not> vadArmedRef s1 then startVADInternal s1 else s1)
         else
           (let s2 = (release_vad (s1\<lparr>suppressVADRef := False\<rparr>))
                       \<lparr>vadArmedRef := False, isVADActive := False\<rparr>
            in if mediaRecorderRef s2 = Some RecRecording
               then stopRecordingAndSend stop_throws s2
               else s2))"

definition render :: "bool \<Rightarrow> handsfree \<Rightarrow> handsfree" where
  "render stop_throws s =
     (let s1 = s\<lparr>isPlayingRef := tts_isPlaying s\<rparr>;
          s2 = (if seen_isPlaying s1 = tts_isPlaying s1 \<and> seen_isRecording s1 = isRecording s1
                then s1
                else block_effect
                       (s1\<lparr>seen_isPlaying := tts_isPlaying s1,
                           seen_isRecording := isRecording s1\<rparr>));
          s3 = s2\<lparr>isLoadingRef := isLoading s2\<rparr>
      in if isHandsfreeRef s3 = isHandsfreeActive s3 then s3
         else handsfree_effect stop_throws s3)"

text \<open>
  The events of the handsfree loop. The detector calls back only while it runs. The
  player dispatches \<^verbatim>\<open>tts-started-flag\<close> when it leaves the idle state, setting
  \<^verbatim>\<open>isPlaying\<close> in the same step, and resets \<^verbatim>\<open>isPlaying\<close> when its queue runs empty.
\<close>

datatype hf_event =
    SetHandsfree bool
  | Render
  | VadSpeechStart
  | VadSpeechStop
  | MicGranted
  | MicDenied
  | RecorderStopped
  | UploadSettled
  | HandlePlayTTS bool
  | TtsStarted
  | TtsStopped
  | TtsOnCompleteEvent
  | RearmElapsed

fun hf_step :: "bool \<Rightarrow> handsfree \<Rightarrow> hf_event \<Rightarrow> handsfree" where
  "hf_step st s (SetHandsfree a) = setIsHandsfreeActive a s"
| "hf_step st s Render = render st s"
| "hf_step st s VadSpeechStart = (if vadStopRef s then onStart s else s)"
| "hf_step st s VadSpeechStop = (if vadStopRef s then stopRecordingAndSend st s else s)"
| "hf_step st s MicGranted = mic_granted s"
| "hf_step st s MicDenied = mic_denied s"
| "hf_step st s RecorderStopped = recorder_onstop s"
| "hf_step st s UploadSettled = upload_settled s"
| "hf_step st s (HandlePlayTTS f) = handlePlayTTS f s"
| "hf_step st s TtsStarted =
     (let s1 = s\<lparr>tts_isPlaying := True\<rparr>
      in if isHandsfreeRef s1 then handleTTSStart s1 else s1)"
| "hf_step st s TtsStopped = s\<lparr>tts_isPlaying := False\<rparr>"
| "hf_step st s TtsOnCompleteEvent =
     (if isHandsfreeRef s then s\<lparr>rearm_timers := Suc (rearm_timers s)\<rparr> else s)"
| "hf_step st s RearmElapsed =
     (if rearm_timers s = 0 then s else rearm (s\<lparr>rearm_timers := rearm_timers s - 1\<rparr>))"

definition hf_run :: "bool \<Rightarrow> handsfree \<Rightarrow> hf_event list \<Rightarrow> handsfree" where
  "hf_run st s es = foldl (hf_step st) s es"

text \<open>The three conditions of the handsfree loop.\<close>

definition vad_armed :: "handsfree \<Rightarrow> bool" where
  "vad_armed s \<longleftrightarrow> vadArmedRef s \<and> vadStopRef s"

definition recording :: "handsfree \<Rightarrow> bool" where
  "recording s \<longleftrightarrow> mediaRecorderRef s = Some RecRecording"

definition tts_playing :: "handsfree \<Rightarrow> bool" where
  "tts_playing s \<longleftrightarrow> tts_isPlaying s"

definition conditions_holding :: "handsfree \<Rightarrow> nat" where
  "conditions_holding s =
     (if vad_armed s then 1 else 0) + (if recording s then 1 else 0)
       + (if tts_playing s then 1 else 0)"

text \<open>
  Runs in which the playback and the microphone take turns: a playback starts
  (\<^verbatim>\<open>tts-started-flag\<close>) only when no recorder records and no request for the microphone
  and no re-arm timer is pending; its completion (\<^verbatim>\<open>tts-oncomplete\<close>) is signalled only
  when nothing plays; and handsfree is not switched during the run.
\<close>

fun orderly_step :: "handsfree \<Rightarrow> hf_event \<Rightarrow> bool" where
  "orderly_step s TtsStarted =
     (mediaRecorderRef s \<noteq> Some RecRecording \<and> mic_requests s = 0 \<and> rearm_timers s = 0)"
| "orderly_step s TtsOnCompleteEvent = (\<not> tts_isPlaying s)"
| "orderly_step s (SetHandsfree a) = False"
| "orderly_step s e = True"

fun orderly :: "bool \<Rightarrow> handsfree \<Rightarrow> hf_event list \<Rightarrow> bool" where
  "orderly st s [] = True"
| "orderly st s (e # es) = (orderly_step s e \<and> orderly st (hf_step st s e) es)"

text \<open>
  What such runs keep while handsfree is active: during a playback the detector is
  stopped, no recorder records, and no request for the microphone and no re-arm timer is
  pending.
\<close>

definition apart :: "handsfree \<Rightarrow> bool" where
  "apart s \<longleftrightarrow>
     isHandsfreeActive s \<and> isHandsfreeRef s \<and>
     (if tts_isPlaying s
      then \<not> vadStopRef s \<and> mediaRecorderRef s \<noteq> Some RecRecording \<and> mic_requests s = 0
             \<and> rearm_timers s = 0
      else True)"

text \<open>The events that can fall into a recording without ending it.\<close>

fun recording_event :: "hf_event \<Rightarrow> bool" where
  "recording_event Render = True"
| "recording_event VadSpeechStart = True"
| "recording_event MicGranted = True"
| "recording_event MicDenied = True"
| "recording_event RecorderStopped = True"
| "recording_event UploadSettled = True"
| "recording_event TtsOnCompleteEvent = True"
| "recording_event RearmElapsed = True"
| "recording_event e = False"

text \<open>
  States of a handsfree session: handsfree was switched on and the detector listens; the
  user speaks and is being recorded; the user fell silent, the recording was uploaded and
  the reply is about to be played.
\<close>

definition listening :: handsfree where
  "listening = hf_run False mounted [SetHandsfree True, Render]"

definition user_speaking :: handsfree where
  "user_speaking = hf_run False listening [VadSpeechStart, MicGranted]"

definition reply_ready :: handsfree where
  "reply_ready =
     hf_run False user_speaking
       [Render, VadSpeechStop, Render, RecorderStopped, UploadSettled, HandlePlayTTS True]"





text \<open>A whole turn of an orderly session, from listening to the playback of the reply.\<close>

definition turn :: "hf_event list" where
  "turn =
     [VadSpeechStart, MicGranted, Render, VadSpeechStop, Render, RecorderStopped,
      UploadSettled, HandlePlayTTS True, TtsStarted, Render, VadSpeechStart, MicGranted]"

text \<open>
  Runs that are not orderly. The user taps the play button of a message during a
  recording. A playback starts while a request for the microphone is pending, which is
  then granted. The completion of a playback is signalled while it lasts (as \<^verbatim>\<open>playTTS\<close>
  does when a remainder fails), and the timer fires. A playback starts while the re-arm
  timer of the one before is pending. Handsfree is switched on during a playback.
\<close>

definition play_while_recording :: "hf_event list" where
  "play_while_recording = [Render, HandlePlayTTS False, TtsStarted, Render]"

definition grant_in_playback :: "hf_event list" where
  "grant_in_playback = [VadSpeechStart, TtsStarted, MicGranted, Render]"

definition early_complete :: "hf_event list" where
  "early_complete = [TtsStarted, Render, TtsOnCompleteEvent, RearmElapsed]"

definition late_rearm :: "hf_event list" where
  "late_rearm = [TtsOnCompleteEvent, TtsStarted, Render, RearmElapsed]"

definition switch_on_in_playback :: "hf_event list" where
  "switch_on_in_playback = [TtsStarted, Render, SetHandsfree True, Render]"
section \<open>Properties of the voice activity detector\<close>

lemma alternation_0: "alternation 0 = []"
  by (simp add: alternation_def)

lemma alternation_Suc:
  "alternation (Suc n) = alternation n @ [if even n then OnStart else OnStop]"
  by (simp add: alternation_def)

lemma count_alternation:
  "count_cb OnStart (alternation n) = (n + 1) div 2 \<and>
   count_cb OnStop (alternation n) = n div 2"
  by (induction n) (auto simp: alternation_0 alternation_Suc count_cb_def)

lemma vad_inv_start: "vad_inv startVAD"
  by (simp add: vad_inv_def startVAD_def alternation_0)

lemma vad_host_fields:
  "calls (requestAnimationFrame s) = calls s"
  "calls (cancelAnimationFrame h s) = calls s"
  "calls (setTimeout s) = calls s"
  "calls (clearTimeout h s) = calls s"
  "isSpeaking (requestAnimationFrame s) = isSpeaking s"
  "isSpeaking (cancelAnimationFrame h s) = isSpeaking s"
  "isSpeaking (setTimeout s) = isSpeaking s"
  "isSpeaking (clearTimeout h s) = isSpeaking s"
  "stopped (requestAnimationFrame s) = stopped s"
  "stopped (cancelAnimationFrame h s) = stopped s"
  "stopped (setTimeout s) = stopped s"
  "stopped (clearTimeout h s) = stopped s"
  by (simp_all add: requestAnimationFrame_def cancelAnimationFrame_def setTimeout_def
      clearTimeout_def)

lemma vad_inv_host:
  "vad_inv (requestAnimationFrame s) = vad_inv s"
  "vad_inv (cancelAnimationFrame h s) = vad_inv s"
  "vad_inv (setTimeout s) = vad_inv s"
  "vad_inv (clearTimeout h s) = vad_inv s"
  "vad_inv (s\<lparr>frames := f\<rparr>) = vad_inv s"
  "vad_inv (s\<lparr>timers := t\<rparr>) = vad_inv s"
  "vad_inv (s\<lparr>init_pending := b\<rparr>) = vad_inv s"
  "vad_inv (s\<lparr>stopped := b\<rparr>) = vad_inv s"
  by (simp_all add: vad_inv_def vad_host_fields)

text \<open>The two places that call back keep the invariant: each flips \<^verbatim>\<open>isSpeaking\<close>.\<close>

lemma vad_inv_onStart:
  "vad_inv s \<Longrightarrow> \<not> isSpeaking s \<Longrightarrow>
   vad_inv (s\<lparr>isSpeaking := True, calls := calls s @ [OnStart]\<rparr>)"
  by (simp add: vad_inv_def alternation_Suc)

lemma vad_inv_onStop:
  "vad_inv s \<Longrightarrow> isSpeaking s \<Longrightarrow>
   vad_inv (s\<lparr>isSpeaking := False, calls := calls s @ [OnStop]\<rparr>)"
  by (simp add: vad_inv_def alternation_Suc)

lemma vad_inv_loop: "vad_inv s \<Longrightarrow> vad_inv (loop th rms s)"
  by (simp add: loop_def Let_def vad_inv_onStart vad_inv_host split: option.splits)

lemma vad_inv_silence: "vad_inv s \<Longrightarrow> vad_inv (silence_elapsed s)"
  by (simp add: silence_elapsed_def vad_inv_onStop)

lemma vad_inv_stop: "vad_inv s \<Longrightarrow> vad_inv (stop s)"
  by (simp add: stop_def Let_def vad_inv_host split: option.splits)

lemma vad_inv_step: "vad_inv s \<Longrightarrow> vad_inv (vad_step th s e)"
  by (cases e) (simp_all add: vad_inv_loop vad_inv_silence vad_inv_stop vad_inv_host)

lemma vad_inv_run: "vad_inv s \<Longrightarrow> vad_inv (vad_run th s es)"
  unfolding vad_run_def
  by (induction es arbitrary: s) (simp_all add: vad_inv_step)

text \<open>The sample session: speech starts, stops after the silence, and starts again.\<close>

lemma rms_samples: "rms_of loud_frame = 100" "rms_of quiet_frame = 2"
proof -
  have "sqrt ((100::real) ^ 2) = 100" "sqrt ((2::real) ^ 2) = 2"
    by (simp_all only: real_sqrt_abs)
  then show "rms_of loud_frame = 100" "rms_of quiet_frame = 2"
    by (simp_all add: rms_of_def loud_frame_def quiet_frame_def)
qed

lemma sample_session_calls:
  "calls (vad_run 10 startVAD sample_session) = [OnStart, OnStop, OnStart]"
  by (simp add: vad_run_def sample_session_def startVAD_def rms_samples loop_def stop_def
      silence_elapsed_def requestAnimationFrame_def setTimeout_def clearTimeout_def Let_def)

text \<open>
  Claim C3. Whatever the threshold and whatever the frames, timeouts and calls of
  \<^verbatim>\<open>stop\<close> that follow \<^verbatim>\<open>startVAD\<close>, the callbacks made so far are the alternating
  sequence \<open>OnStart, OnStop, OnStart, ...\<close>, and after every prefix of the events
  \<^verbatim>\<open>onStop\<close> has been called at most as often as \<^verbatim>\<open>onStart\<close>.
\<close>

theorem vad_alternation:
  "calls (vad_run th startVAD es) = alternation (length (calls (vad_run th startVAD es))) \<and>
   count_cb OnStop (calls (vad_run th startVAD (take n es)))
     \<le> count_cb OnStart (calls (vad_run th startVAD (take n es)))"
proof -
  have a: "vad_inv (vad_run th startVAD xs)" for xs
    by (rule vad_inv_run [OF vad_inv_start])
  have "calls (vad_run th startVAD (take n es))
      = alternation (length (calls (vad_run th startVAD (take n es))))"
    using a [of "take n es"] by (simp add: vad_inv_def)
  then have "count_cb OnStop (calls (vad_run th startVAD (take n es)))
     \<le> count_cb OnStart (calls (vad_run th startVAD (take n es)))"
    using count_alternation [of "length (calls (vad_run th startVAD (take n es)))"]
    by (metis div_le_mono le_add1)
  then show ?thesis using a [of es] by (simp add: vad_inv_def)
qed

lemma stopped_stop: "stopped (stop s)"
  by (simp add: stop_def Let_def vad_host_fields split: option.splits)

lemma calls_stop: "calls (stop s) = calls s"
  by (simp add: stop_def Let_def vad_host_fields split: option.splits)

lemma vad_step_stopped:
  "stopped s \<Longrightarrow> stopped (vad_step th s e) \<and> calls (vad_step th s e) = calls s"
  by (cases e)
    (simp_all add: loop_def silence_elapsed_def stopped_stop calls_stop vad_host_fields)

lemma vad_run_stopped:
  "stopped s \<Longrightarrow> stopped (vad_run th s es) \<and> calls (vad_run th s es) = calls s"
  unfolding vad_run_def
proof (induction es arbitrary: s)
  case Nil
  then show ?case by simp
next
  case (Cons e es)
  from vad_step_stopped [OF Cons.prems, of th e]
  have st: "stopped (vad_step th s e)" and c: "calls (vad_step th s e) = calls s"
    by simp_all
  from Cons.IH [OF st] c show ?case by simp
qed

text \<open>
  Claim C10. From any state of the detector (whatever timeouts and frame requests are
  live in it), once \<^verbatim>\<open>stop\<close> has run no later event calls \<^verbatim>\<open>onStart\<close> or \<^verbatim>\<open>onStop\<close>:
  the log of callbacks stays what it was when \<^verbatim>\<open>stop\<close> was called. The later events may
  be frames, timeouts (the silence timer that was pending included) and further calls of
  \<^verbatim>\<open>stop\<close>; the detector stays stopped through all of them.
\<close>

theorem vad_quiescent_after_stop:
  "calls (vad_run th (stop s) es) = calls s \<and> stopped (vad_run th (stop s) es)"
  using vad_run_stopped [OF stopped_stop, of th s es] by (simp add: calls_stop)

section \<open>Properties of the text chunker\<close>

lemma is_space_numeral:
  "is_space (numeral k) \<longleftrightarrow>
     numeral k \<in> {9::nat, 10, 11, 12, 13, 32, 160, 5760, 8232, 8233, 8239, 8287, 12288, 65279}
     \<or> (8192 \<le> (numeral k::nat) \<and> (numeral k::nat) \<le> 8202)"
  by (simp add: is_space_def)

lemma chunk_short: "length text \<le> 80 \<Longrightarrow> chunkTextForTTS text = (text, None)"
  by (simp add: chunkTextForTTS_def)

lemma content_append: "content (xs @ ys) = content xs @ content ys"
  by (simp add: content_def)

lemma content_dropWhile: "content (dropWhile is_space xs) = content xs"
  by (induction xs) (simp_all add: content_def)

lemma content_rev: "content (rev xs) = rev (content xs)"
  by (simp add: content_def rev_filter)

lemma content_trim: "content (trim xs) = content xs"
  by (simp add: trim_def content_rev content_dropWhile)

lemma content_space: "content (js '' '') = []"
  by (simp add: content_def js_def is_space_def)


lemma content_spaces: "list_all is_space xs \<Longrightarrow> content xs = []"
  by (induction xs) (simp_all add: content_def)

lemma trim_Nil_content: "trim xs = [] \<Longrightarrow> content xs = []"
  using content_trim [of xs] by (simp add: content_def)

lemma length_trim: "length (trim xs) \<le> length xs"
proof -
  have "length (dropWhile is_space (rev (dropWhile is_space xs)))
          \<le> length (rev (dropWhile is_space xs))"
    by (rule length_dropWhile_le)
  moreover have "length (dropWhile is_space xs) \<le> length xs"
    by (rule length_dropWhile_le)
  ultimately show ?thesis by (simp add: trim_def)
qed

text \<open>
  What the splitter returns: the first piece is a prefix of the text; when it is followed
  by a separator (a non-empty run of white space), the other pieces are those of the text
  after the separator.
\<close>

lemma split_from_shape:
  "\<exists>pre sep rest. tx = pre @ sep @ rest \<and> list_all is_space sep \<and> (sep = [] \<longrightarrow> rest = []) \<and>
      (\<not> b \<and> tx \<noteq> [] \<longrightarrow> pre \<noteq> []) \<and>
      split_from b cur tx = (cur @ pre) # (if sep = [] then [] else split_from False [] rest)"
proof (induction b cur tx rule: split_from.induct)
  case (1 b cur)
  have "[] = [] @ [] @ ([]::jsstring) \<and> list_all is_space [] \<and> (([]::jsstring) = [] \<longrightarrow> ([]::jsstring) = []) \<and>
      (\<not> b \<and> ([]::jsstring) \<noteq> [] \<longrightarrow> ([]::jsstring) \<noteq> []) \<and>
      split_from b cur [] = (cur @ []) # (if ([]::jsstring) = [] then [] else split_from False [] [])"
    by simp
  then show ?case by blast
next
  case (2 b cur c cs)
  show ?case
  proof (cases "b \<and> is_space c")
    case True
    let ?sep = "c # takeWhile is_space cs"
    let ?rest = "dropWhile is_space cs"
    have a: "list_all is_space ?sep"
      using True by (simp add: list_all_iff) (meson set_takeWhileD)
    have "c # cs = [] @ ?sep @ ?rest \<and> list_all is_space ?sep \<and> (?sep = [] \<longrightarrow> ?rest = []) \<and>
      (\<not> b \<and> c # cs \<noteq> [] \<longrightarrow> ([]::jsstring) \<noteq> []) \<and>
      split_from b cur (c # cs) = (cur @ []) # (if ?sep = [] then [] else split_from False [] ?rest)"
      using True a by simp
    then show ?thesis by blast
  next
    case False
    from 2(2) [OF False] obtain pre sep rest where
      t: "cs = pre @ sep @ rest" and sp: "list_all is_space sep" and e: "sep = [] \<longrightarrow> rest = []"
      and s: "split_from (is_sentence_end c) (cur @ [c]) cs
                = ((cur @ [c]) @ pre) # (if sep = [] then [] else split_from False [] rest)"
      by blast
    have "c # cs = (c # pre) @ sep @ rest \<and> list_all is_space sep \<and> (sep = [] \<longrightarrow> rest = []) \<and>
      (\<not> b \<and> c # cs \<noteq> [] \<longrightarrow> c # pre \<noteq> []) \<and>
      split_from b cur (c # cs) = (cur @ (c # pre)) # (if sep = [] then [] else split_from False [] rest)"
      using False t sp e s by simp
    then show ?thesis by blast
  qed
qed

text \<open>
  The first and the second sentence of a non-empty text are consecutive parts of it,
  with white space in between.
\<close>

lemma sentences_shape:
  assumes "tx \<noteq> []"
  shows "\<exists>p0 sep p1 r. tx = p0 @ sep @ p1 @ r \<and> list_all is_space sep \<and> (p1 \<noteq> [] \<longrightarrow> sep \<noteq> []) \<and>
     hd (split_sentences tx) = p0 \<and>
     (case filter (\<lambda>s. s \<noteq> []) (split_sentences tx) of [] \<Rightarrow> [] | a # _ \<Rightarrow> a) = p0 \<and>
     (case filter (\<lambda>s. s \<noteq> []) (split_sentences tx) of a # b # _ \<Rightarrow> b | _ \<Rightarrow> []) = p1"
proof -
  from split_from_shape [of tx False "[]"] assms obtain p0 sep rest where
    t: "tx = p0 @ sep @ rest" and sp: "list_all is_space sep" and e: "sep = [] \<longrightarrow> rest = []"
    and ne: "p0 \<noteq> []"
    and s: "split_from False [] tx = p0 # (if sep = [] then [] else split_from False [] rest)"
    by auto
  show ?thesis
  proof (cases "sep = [] \<or> rest = []")
    case True
    then have "filter (\<lambda>s. s \<noteq> []) (split_sentences tx) = [p0]"
      using s ne e by (auto simp add: split_sentences_def)
    then have "tx = p0 @ sep @ [] @ rest \<and> list_all is_space sep \<and> (([]::jsstring) \<noteq> [] \<longrightarrow> sep \<noteq> []) \<and>
     hd (split_sentences tx) = p0 \<and>
     (case filter (\<lambda>s. s \<noteq> []) (split_sentences tx) of [] \<Rightarrow> [] | a # _ \<Rightarrow> a) = p0 \<and>
     (case filter (\<lambda>s. s \<noteq> []) (split_sentences tx) of a # b # _ \<Rightarrow> b | _ \<Rightarrow> []) = []"
      using t sp s by (simp add: split_sentences_def)
    then show ?thesis by blast
  next
    case False
    then have sne: "sep \<noteq> []" and rne: "rest \<noteq> []" by simp_all
    from split_from_shape [of rest False "[]"] rne obtain p1 sep1 rest1 where
      t1: "rest = p1 @ sep1 @ rest1" and ne1: "p1 \<noteq> []"
      and s1: "split_from False [] rest = p1 # (if sep1 = [] then [] else split_from False [] rest1)"
      by auto
    have "filter (\<lambda>s. s \<noteq> []) (split_sentences tx)
        = p0 # p1 # filter (\<lambda>s. s \<noteq> []) (if sep1 = [] then [] else split_from False [] rest1)"
      using s s1 ne ne1 sne by (simp add: split_sentences_def)
    then have "tx = p0 @ sep @ p1 @ (sep1 @ rest1) \<and> list_all is_space sep \<and> (p1 \<noteq> [] \<longrightarrow> sep \<noteq> []) \<and>
     hd (split_sentences tx) = p0 \<and>
     (case filter (\<lambda>s. s \<noteq> []) (split_sentences tx) of [] \<Rightarrow> [] | a # _ \<Rightarrow> a) = p0 \<and>
     (case filter (\<lambda>s. s \<noteq> []) (split_sentences tx) of a # b # _ \<Rightarrow> b | _ \<Rightarrow> []) = p1"
      using t t1 sp sne s by (simp add: split_sentences_def)
    then show ?thesis by blast
  qed
qed

lemma is_space_32: "is_space 32"
  by (simp add: is_space_def)

lemma js_space: "js '' '' = [32]"
  by (simp add: js_def)

lemma trim_space_end: "trim (xs @ js '' '') = trim xs"
proof (cases "list_all is_space xs")
  case True
  have a: "dropWhile is_space xs = []"
    using True by (simp add: dropWhile_eq_Nil_conv list_all_iff)
  have b: "dropWhile is_space (xs @ [32]) = []"
    using True is_space_32 by (simp add: dropWhile_eq_Nil_conv list_all_iff)
  show ?thesis unfolding trim_def js_space a b by simp
next
  case False
  then obtain x where "x \<in> set xs" "\<not> is_space x" by (auto simp add: list_all_iff)
  then have "dropWhile is_space (xs @ [32]) = dropWhile is_space xs @ [32]"
    by (simp add: dropWhile_append1)
  then show ?thesis unfolding trim_def js_space by (simp add: is_space_32)
qed

text \<open>
  What the two chunks say: the intro, then the text from the intro's length on.
\<close>

lemma content_rejoin:
  "content (rejoin (chunkTextForTTS tx)) =
     (if length tx \<le> 80 then content tx
      else content (fst (chunkTextForTTS tx))
             @ content (drop (length (fst (chunkTextForTTS tx))) tx))"
proof (cases "length tx \<le> 80")
  case True
  then show ?thesis by (simp add: chunkTextForTTS_def rejoin_def)
next
  case False
  then show ?thesis
    using content_trim [of "drop (length (fst (chunkTextForTTS tx))) tx"]
    by (auto simp add: chunkTextForTTS_def rejoin_def Let_def content_append content_space
        trim_Nil_content)
qed

text \<open>
  Where the first sentence has 30 code units or more, the intro is that sentence, the
  offset is right, and the round trip holds up to white space.
\<close>

lemma chunk_long_first:
  assumes "length tx > 80"
    and "length (hd (split_sentences tx)) \<ge> 30"
  shows "content (rejoin (chunkTextForTTS tx)) = content tx"
proof -
  from assms(1) have "tx \<noteq> []" by auto
  from sentences_shape [OF this] obtain p0 sep p1 r where
    t: "tx = p0 @ sep @ p1 @ r" and h: "hd (split_sentences tx) = p0"
    and f: "(case filter (\<lambda>s. s \<noteq> []) (split_sentences tx) of [] \<Rightarrow> [] | a # _ \<Rightarrow> a) = p0"
    by blast
  from f h assms have i: "fst (chunkTextForTTS tx) = p0"
    by (simp add: chunkTextForTTS_def Let_def)
  have "content tx = content p0 @ content (drop (length p0) tx)"
    using t by (simp add: content_append)
  with i assms(1) show ?thesis by (simp add: content_rejoin)
qed

text \<open>
  In every case nothing is lost: the content of the text is a subsequence of the content
  of the two chunks. The intro is never longer than the part of the text it stands for,
  so the remainder starts at or before the end of that part.
\<close>

lemma chunk_nothing_lost:
  "subseq (content tx) (content (rejoin (chunkTextForTTS tx)))"
proof (cases "length tx \<le> 80")
  case True
  then show ?thesis by (simp add: content_rejoin)
next
  case long: False
  then have "tx \<noteq> []" by auto
  from sentences_shape [OF this] obtain p0 sep p1 r where
    t: "tx = p0 @ sep @ p1 @ r" and sp: "list_all is_space sep" and s1: "p1 \<noteq> [] \<longrightarrow> sep \<noteq> []"
    and h: "hd (split_sentences tx) = p0"
    and f: "(case filter (\<lambda>s. s \<noteq> []) (split_sentences tx) of [] \<Rightarrow> [] | a # _ \<Rightarrow> a) = p0"
    and g: "(case filter (\<lambda>s. s \<noteq> []) (split_sentences tx) of a # b # _ \<Rightarrow> b | _ \<Rightarrow> []) = p1"
    by blast
  show ?thesis
  proof (cases "length p0 \<ge> 30")
    case True
    with h long have "content (rejoin (chunkTextForTTS tx)) = content tx"
      by (simp add: chunk_long_first)
    then show ?thesis by simp
  next
    case short: False
    let ?intro = "trim (p0 @ js '' '' @ p1)"
    have i: "fst (chunkTextForTTS tx) = ?intro"
      using long short f g by (simp add: chunkTextForTTS_def Let_def)
    have c: "content ?intro = content p0 @ content p1"
      by (simp add: content_trim content_append content_space)
    have le: "length ?intro \<le> length (p0 @ sep @ p1)"
    proof (cases "p1 = []")
      case True
      then show ?thesis
        using length_trim [of p0] trim_space_end [of p0] by simp
    next
      case False
      with s1 have "length sep \<ge> 1" by (cases sep) simp_all
      then show ?thesis
        using length_trim [of "p0 @ js '' '' @ p1"] by (simp add: js_def)
    qed
    have d: "drop (length ?intro) tx = drop (length ?intro) (p0 @ sep @ p1) @ r"
      using le t by simp
    have full: "content tx = content p0 @ content p1 @ content r"
      using t sp by (simp add: content_append content_spaces)
    have "content (rejoin (chunkTextForTTS tx)) =
        content p0 @ content p1 @ content (drop (length ?intro) (p0 @ sep @ p1)) @ content r"
      using long i c d by (simp add: content_rejoin content_append)
    moreover have "subseq (content p0 @ content p1 @ content r)
        (content p0 @ content p1 @ content (drop (length ?intro) (p0 @ sep @ p1)) @ content r)"
      by (intro list_emb_append_mono subseq_order.refl list_emb_append2)
    ultimately show ?thesis using full by simp
  qed
qed


text \<open>The sample text.\<close>

lemma split_sample_text:
  "split_sentences sample_text =
     [js ''Hi.'', js ''This is the second sentence of the text.'',
      js ''And here is a third sentence that makes it long.'']"
  by (simp add: sample_text_def js_def split_sentences_def is_space_numeral is_sentence_end_def)

lemma chunk_sample_text:
  "chunkTextForTTS sample_text =
     (js ''Hi. This is the second sentence of the text.'',
      Some (js ''. And here is a third sentence that makes it long.''))"
  unfolding chunkTextForTTS_def split_sample_text
  by (simp add: sample_text_def js_def trim_def is_space_numeral)

text \<open>
  Claim C6, at a failing input. The text has 94 code units; its first sentence \<open>Hi.\<close> is
  shorter than 30 and is followed by two spaces. The intro is the first two sentences
  joined by one space, so it is one unit shorter than the part of the text it stands for,
  and the remainder, cut at the intro's length, starts with the full stop that already
  ends the intro. Intro, joining space and remainder do not have the content of the
  text, even with all white space left aside: a character is spoken twice. (Nothing is
  lost, by \<open>chunk_nothing_lost\<close>, and texts whose first sentence is long enough are not
  affected, by \<open>chunk_long_first\<close>.)
\<close>

theorem chunk_roundtrip_duplicates:
  "length sample_text = 94 \<and>
   chunkTextForTTS sample_text =
     (js ''Hi. This is the second sentence of the text.'',
      Some (js ''. And here is a third sentence that makes it long.'')) \<and>
   content (rejoin (chunkTextForTTS sample_text)) \<noteq> content sample_text"
proof -
  have "content (rejoin (chunkTextForTTS sample_text)) \<noteq> content sample_text"
    unfolding chunk_sample_text
    by (simp add: sample_text_def js_def rejoin_def content_def is_space_numeral)
  moreover have "length sample_text = 94"
    by (simp add: sample_text_def js_def)
  ultimately show ?thesis using chunk_sample_text by simp
qed

section \<open>Properties of the transcription upload\<close>

lemma get_key_has_key: "get_key k e = Some v \<Longrightarrow> has_key k e \<and> is_object e"
  by (cases e) (auto dest: map_of_SomeD intro: rev_image_eqI)

lemma has_key_get_key: "has_key k e \<Longrightarrow> \<exists>v. get_key k e = Some v"
  by (cases e) (auto dest: weak_map_of_SomeI)

lemma length_data_prefix: "length (js ''data: '') = 6"
  by (simp add: js_def)

text \<open>
  One round of the \<^verbatim>\<open>for\<close> loop, read as the specification reads the line: the sentinel
  finishes, any other line advances the transcript and the usage.
\<close>

lemma process_line_eq:
  "process_line parse tostr (h, s) line =
     (if is_done line then finish (h, s) else (h, advance parse tostr s [line]))"
proof (cases "startsWith line (js ''data: '')")
  case False
  then show ?thesis
    by (simp add: process_line_def is_done_def advance_def event_of_def)
next
  case sw: True
  show ?thesis
  proof (cases "trim (drop 6 line) = js ''[DONE]''")
    case True
    with sw show ?thesis
      by (simp add: process_line_def is_done_def finish_def length_data_prefix)
  next
    case nd: False
    show ?thesis
    proof (cases "parse (trim (drop 6 line))")
      case None
      with sw nd show ?thesis
        by (simp add: process_line_def is_done_def advance_def event_of_def length_data_prefix)
    next
      case (Some e)
      show ?thesis
      proof (cases "is_delta e")
        case True
        then have "is_object e \<and> has_key (js ''type'') e"
          using get_key_has_key [of "js ''type''" e] by (simp add: is_delta_def)
        with True sw nd Some show ?thesis
          by (simp add: process_line_def is_done_def advance_def event_of_def
              length_data_prefix is_delta_def usage_of_def)
      next
        case False
        with sw nd Some show ?thesis
          using get_key_has_key [of "js ''usage''" e] has_key_get_key [of "js ''usage''" e]
          by (auto simp add: process_line_def is_done_def advance_def event_of_def
              length_data_prefix is_delta_def usage_of_def Let_def split: option.splits)
      qed
    qed
  qed
qed

lemma doneReading_advance: "doneReading (advance parse tostr s ls) = doneReading s"
  by (simp add: advance_def)

lemma doneReading_finish: "doneReading (snd (finish hs))"
  by (simp add: finish_def)

lemma advance_Nil: "advance parse tostr s [] = s"
  by (simp add: advance_def)

lemma advance_append:
  "advance parse tostr (advance parse tostr s xs) ys = advance parse tostr s (xs @ ys)"
proof -
  have t: "transcript parse tostr (transcript parse tostr t xs) ys
             = transcript parse tostr t (xs @ ys)" for t
    by (induction xs arbitrary: t) simp_all
  have u: "last_usage parse (last_usage parse u xs) ys = last_usage parse u (xs @ ys)" for u
    by (induction xs arbitrary: u) simp_all
  show ?thesis by (simp add: advance_def t u)
qed

text \<open>The \<^verbatim>\<open>for\<close> loop over the lines of a chunk.\<close>

lemma process_lines_eq:
  "\<not> doneReading s \<Longrightarrow>
   process_lines parse tostr (h, s) ls =
     (if has_done ls then finish (h, advance parse tostr s (before_done ls))
      else (h, advance parse tostr s ls))"
proof (induction ls arbitrary: s)
  case Nil
  then show ?case by (simp add: has_done_def advance_Nil)
next
  case (Cons l ls)
  show ?case
  proof (cases "is_done l")
    case True
    then show ?thesis
      by (simp add: process_line_eq doneReading_finish has_done_def before_done_def advance_Nil)
  next
    case False
    have nd: "\<not> doneReading (advance parse tostr s [l])"
      using Cons.prems by (simp add: doneReading_advance)
    from Cons.IH [OF nd] False nd show ?thesis
      using advance_append [of parse tostr s "[l]"]
      by (simp add: process_line_eq has_done_def before_done_def)
  qed
qed

text \<open>
  The \<^verbatim>\<open>while\<close> loop, run without interruption: it ends in the \<^verbatim>\<open>catch\<close> clause when a
  read rejects, and else with whatever the chunks read make the sentinel emit.
\<close>

declare uninterrupted.simps [simp del]

lemma uninterrupted_simps [simp]:
  "uninterrupted parse tostr hf h (AwaitFetch FetchRejects) = finally_block hf (catch_clause h)"
  "uninterrupted parse tostr hf h (AwaitFetch (Response ok body)) =
     (if \<not> ok then finally_block hf (catch_clause h)
      else
        case body of
          None \<Rightarrow> finally_block hf (catch_clause h)
        | Some reads \<Rightarrow>
            uninterrupted parse tostr hf h
              (AwaitRead \<lparr>fullText = [], usage = None, doneReading = False\<rparr> reads))"
  "uninterrupted parse tostr hf h (AwaitRead s []) = finally_block hf h"
  "uninterrupted parse tostr hf h (AwaitRead s (ReadRejects # rest)) =
     finally_block hf (catch_clause h)"
  "uninterrupted parse tostr hf h (AwaitRead s (Chunk c # rest)) =
     (if doneReading (snd (process_lines parse tostr (h, s) (lines_of c)))
      then finally_block hf (fst (process_lines parse tostr (h, s) (lines_of c)))
      else uninterrupted parse tostr hf (fst (process_lines parse tostr (h, s) (lines_of c)))
             (AwaitRead (snd (process_lines parse tostr (h, s) (lines_of c))) rest))"
  by (simp_all add: uninterrupted.simps [of _ _ _ _ "AwaitFetch _"]
      uninterrupted.simps [of _ _ _ _ "AwaitRead _ _"] Let_def split: option.splits)

lemma has_done_append: "has_done (xs @ ys) \<longleftrightarrow> has_done xs \<or> has_done ys"
  by (simp add: has_done_def)

lemma before_done_append:
  "before_done (xs @ ys) = (if has_done xs then before_done xs else xs @ before_done ys)"
proof (cases "has_done xs")
  case True
  then obtain x where "x \<in> set xs" "is_done x"
    by (auto simp: has_done_def list_ex_iff)
  then have "before_done (xs @ ys) = before_done xs"
    unfolding before_done_def
    using takeWhile_append1 [of x xs "\<lambda>l. \<not> is_done l"] by simp
  with True show ?thesis by simp
next
  case False
  then have "\<forall>x\<in>set xs. \<not> is_done x"
    by (simp add: has_done_def list_ex_iff)
  then have "before_done (xs @ ys) = xs @ before_done ys"
    unfolding before_done_def by (simp add: takeWhile_append2)
  with False show ?thesis by simp
qed

lemma stream_lines_Cons: "stream_lines (c # cs) = lines_of c @ stream_lines cs"
  by (simp add: stream_lines_def)

lemma stream_lines_Nil: "stream_lines [] = []"
  by (simp add: stream_lines_def)

lemma uninterrupted_read:
  "\<not> doneReading s \<Longrightarrow>
   uninterrupted parse tostr hf h (AwaitRead s reads) =
     finally_block hf
       (if read_throws reads then catch_clause h
        else if has_done (stream_lines (chunks_read reads))
        then fst (finish (h, advance parse tostr s
                             (before_done (stream_lines (chunks_read reads)))))
        else h)"
proof (induction reads arbitrary: s)
  case Nil
  then show ?case
    by (simp add: stream_lines_Nil has_done_def)
next
  case (Cons rd rest)
  show ?case
  proof (cases rd)
    case ReadRejects
    then show ?thesis by simp
  next
    case (Chunk c)
    show ?thesis
    proof (cases "has_done (lines_of c)")
      case True
      with Chunk Cons.prems show ?thesis
        by (simp add: process_lines_eq doneReading_finish stream_lines_Cons stream_lines_Nil)
    next
      case False
      have nd: "\<not> doneReading (advance parse tostr s (lines_of c))"
        using Cons.prems by (simp add: doneReading_advance)
      have "uninterrupted parse tostr hf h (AwaitRead s (Chunk c # rest)) =
          uninterrupted parse tostr hf h (AwaitRead (advance parse tostr s (lines_of c)) rest)"
        using False nd Cons.prems by (simp add: process_lines_eq)
      with Cons.IH [OF nd] False Chunk show ?thesis
        by (simp add: stream_lines_Cons has_done_append before_done_append advance_append)
    qed
  qed
qed

text \<open>
  The calls of \<^verbatim>\<open>onNewTranscription\<close> that an uninterrupted \<^verbatim>\<open>sendAudioToAPI\<close> adds: the
  fixed text when the \<^verbatim>\<open>try\<close> block throws, and else what the chunks read make the
  sentinel emit.
\<close>

lemma send_eq:
  "sendAudioToAPI parse tostr hf h res =
     finally_block hf
       (if throws res then catch_clause (h\<lparr>emittedRef := False\<rparr>)
        else if has_done (stream_lines (body_read res))
        then fst (finish (h\<lparr>emittedRef := False\<rparr>,
                          advance parse tostr \<lparr>fullText = [], usage = None, doneReading = False\<rparr>
                            (before_done (stream_lines (body_read res)))))
        else h\<lparr>emittedRef := False\<rparr>)"
proof (cases res)
  case FetchRejects
  then show ?thesis
    by (simp add: sendAudioToAPI_def call_def)
next
  case (Response ok body)
  show ?thesis
  proof (cases body)
    case None
    with Response show ?thesis
      by (simp add: sendAudioToAPI_def call_def)
  next
    case (Some reads)
    show ?thesis
    proof (cases ok)
      case False
      with Response Some show ?thesis
        by (simp add: sendAudioToAPI_def call_def)
    next
      case True
      let ?s0 = "\<lparr>fullText = [], usage = None, doneReading = False\<rparr>"
      have "\<not> doneReading ?s0" by simp
      from uninterrupted_read [OF this, of parse tostr hf "h\<lparr>emittedRef := False\<rparr>" reads]
      show ?thesis
        using Response Some True by (simp add: sendAudioToAPI_def call_def)
    qed
  qed
qed

lemma send_transcriptions:
  "transcriptions (sendAudioToAPI parse tostr hf h res) =
     transcriptions h
       @ (if throws res then [(js ''Failed to process audio'', None)]
          else emission parse tostr (stream_lines (body_read res)))"
  by (simp add: send_eq finally_block_def catch_clause_def finish_def advance_def emission_def)

lemma send_spinner:
  "spinner_stopped (sendAudioToAPI parse tostr hf h res) =
     (if hf then spinner_stopped h else True)"
  by (simp add: send_eq finally_block_def catch_clause_def finish_def)

lemma length_emission: "length (emission parse tostr ls) \<le> 1"
  by (simp add: emission_def)

text \<open>
  The chunks read are the chunks up to the first that holds a sentinel: they emit what
  the whole stream emits.
\<close>

lemma chunks_read_all:
  "has_done (stream_lines (chunks_read (map Chunk cs))) = has_done (stream_lines cs) \<and>
   before_done (stream_lines (chunks_read (map Chunk cs))) = before_done (stream_lines cs)"
  by (induction cs)
    (simp_all add: stream_lines_Nil stream_lines_Cons has_done_append before_done_append)

lemma read_throws_chunks: "\<not> read_throws (map Chunk cs)"
  by (induction cs) simp_all

lemma emission_chunks_read:
  "emission parse tostr (stream_lines (chunks_read (map Chunk cs)))
     = emission parse tostr (stream_lines cs)"
  by (simp add: emission_def chunks_read_all)

text \<open>
  Chunks that hold whole lines: the lines the code sees, chunk by chunk, are the lines of
  the whole stream.
\<close>

lemma split_newline_append:
  "split_newline cur (xs @ 10 # ys) = split_newline cur xs @ split_newline [] ys"
  by (induction xs arbitrary: cur) simp_all

lemma trim_Nil: "trim [] = []"
  by (simp add: trim_def)

lemma lines_of_append:
  assumes "whole_lines c"
  shows "lines_of (c @ d) = lines_of c @ lines_of d"
proof (cases "c = []")
  case True
  then show ?thesis by (simp add: lines_of_def trim_Nil)
next
  case False
  with assms have "c = butlast c @ [10]"
    by (metis append_butlast_last_id whole_lines_def)
  then obtain b where c: "c = b @ [10]" ..
  have "split_newline [] (c @ d) = split_newline [] b @ split_newline [] d"
    using split_newline_append [of "[]" b d] c by simp
  moreover have "split_newline [] c = split_newline [] b @ [[]]"
    using split_newline_append [of "[]" b "[]"] c by simp
  ultimately show ?thesis by (simp add: lines_of_def trim_Nil)
qed

lemma stream_lines_whole:
  "list_all whole_lines chunks \<Longrightarrow> stream_lines chunks = lines_of (concat chunks)"
proof (induction chunks)
  case Nil
  then show ?case by (simp add: stream_lines_def lines_of_def trim_Nil)
next
  case (Cons c cs)
  then show ?case by (simp add: stream_lines_def lines_of_append)
qed

text \<open>
  Calls that overlap: a resumption that does not end its call makes no call of
  \<^verbatim>\<open>onNewTranscription\<close>, and one that ends it makes at most one.
\<close>

lemma resume_bound:
  assumes "reading (Some t)"
  shows "length (transcriptions (fst (resume parse tostr hf h t))) + live (snd (resume parse tostr hf h t))
           \<le> length (transcriptions h) + 1
         \<and> reading (snd (resume parse tostr hf h t))"
proof (cases t)
  case (AwaitFetch res)
  then show ?thesis
    by (cases res) (auto simp add: finally_block_def catch_clause_def split: option.splits)
next
  case (AwaitRead s reads)
  with assms have nd: "\<not> doneReading s" by simp
  show ?thesis
  proof (cases reads)
    case Nil
    with AwaitRead show ?thesis by (simp add: finally_block_def)
  next
    case (Cons rd rest)
    show ?thesis
    proof (cases rd)
      case ReadRejects
      with AwaitRead Cons show ?thesis by (simp add: finally_block_def catch_clause_def)
    next
      case (Chunk c)
      with AwaitRead Cons nd show ?thesis
        by (simp add: process_lines_eq finally_block_def finish_def doneReading_advance Let_def)
    qed
  qed
qed

lemma sum_live_update:
  "i < length ts \<Longrightarrow>
   sum_list (map live (ts[i := x])) + live (ts ! i) = sum_list (map live ts) + live x"
proof (induction ts arbitrary: i)
  case Nil
  then show ?case by simp
next
  case (Cons t ts)
  then show ?case by (cases i) auto
qed

lemma upload_step_bound:
  assumes "list_all reading ts"
  shows "length (transcriptions (fst (upload_step parse tostr (h, ts) e)))
           + sum_list (map live (snd (upload_step parse tostr (h, ts) e)))
           \<le> length (transcriptions h) + sum_list (map live ts) + (if is_call e then 1 else 0)
         \<and> list_all reading (snd (upload_step parse tostr (h, ts) e))"
proof (cases e)
  case (Call res)
  with assms show ?thesis by (simp add: call_def)
next
  case (Resume i hf)
  show ?thesis
  proof (cases "i < length ts")
    case False
    with Resume assms show ?thesis by simp
  next
    case True
    show ?thesis
    proof (cases "ts ! i")
      case None
      with Resume True assms show ?thesis by simp
    next
      case (Some t)
      from assms True Some have "reading (Some t)"
        by (metis list_all_length)
      from resume_bound [OF this, of parse tostr hf h]
      have b: "length (transcriptions (fst (resume parse tostr hf h t)))
                 + live (snd (resume parse tostr hf h t)) \<le> length (transcriptions h) + 1"
        and r: "reading (snd (resume parse tostr hf h t))" by simp_all
      from sum_live_update [OF True, of "snd (resume parse tostr hf h t)"] Some
      have u: "sum_list (map live (ts[i := snd (resume parse tostr hf h t)])) + 1
                 = sum_list (map live ts) + live (snd (resume parse tostr hf h t))"
        by simp
      have l: "list_all reading (ts[i := snd (resume parse tostr hf h t)])"
        using assms r True by (auto simp add: list_all_length nth_list_update)
      from b u l Resume True Some show ?thesis by simp
    qed
  qed
qed

lemma uploads_bound:
  "list_all reading ts \<Longrightarrow>
   length (transcriptions (fst (foldl (upload_step parse tostr) (h, ts) es)))
     + sum_list (map live (snd (foldl (upload_step parse tostr) (h, ts) es)))
     \<le> length (transcriptions h) + sum_list (map live ts) + length (filter is_call es)"
proof (induction es arbitrary: h ts)
  case Nil
  then show ?case by simp
next
  case (Cons e es)
  obtain h' ts' where s: "upload_step parse tostr (h, ts) e = (h', ts')"
    by (cases "upload_step parse tostr (h, ts) e")
  from upload_step_bound [OF Cons.prems, of parse tostr h e] s
  have b: "length (transcriptions h') + sum_list (map live ts')
             \<le> length (transcriptions h) + sum_list (map live ts) + (if is_call e then 1 else 0)"
    and l: "list_all reading ts'" by simp_all
  from Cons.IH [OF l, of h'] b s show ?case
    by (cases "is_call e") simp_all
qed

text \<open>The lines of the sample streams.\<close>

lemma sample_lines:
  "stream_lines sample_stream =
     [line_hello, line_usage, line_world, js ''data: [DONE]'', js ''data: [DONE]'']"
  "stream_lines blank_stream = [js ''data: [DONE]'']"
  "stream_lines cut_stream = [line_hello, js ''data: [DO'', js ''NE]'']"
  "lines_of (concat cut_stream) = [line_hello, js ''data: [DONE]'']"
  "stream_lines hello_stream = [line_hello, js ''data: [DONE]'']"
  "stream_lines world_stream = [line_world, js ''data: [DONE]'']"
  "stream_lines garbled_stream = [line_garbled, js ''data: [DONE]'']"
  "stream_lines truncated_stream = [line_hello]"
  by (simp_all add: sample_stream_def blank_stream_def cut_stream_def hello_stream_def
      world_stream_def garbled_stream_def truncated_stream_def stream_lines_def lines_of_def
      js_def trim_def is_space_numeral line_hello_def line_usage_def line_world_def
      line_garbled_def)

lemmas line_defs =
  has_done_def before_done_def is_done_def startsWith_def js_def trim_def is_space_numeral
  event_of_def sample_parse_def delta_event_def is_delta_def usage_of_def line_hello_def
  line_usage_def line_world_def line_garbled_def

lemma sample_emissions:
  "emission sample_parse (\<lambda>v. []) (stream_lines sample_stream) =
     [(js ''Hello world'',
       Some \<lparr>cost_t = JNum (num 1 2), promptChar = JNum (num 11 1),
             latencyMs = JNum (Finite False 0 0), ttfcMs = JNum (Finite False 0 0)\<rparr>)]"
  "emission sample_parse (\<lambda>v. []) (stream_lines blank_stream) = []"
  "emission sample_parse (\<lambda>v. []) (stream_lines cut_stream) = []"
  "emission sample_parse (\<lambda>v. []) (lines_of (concat cut_stream)) = [(js ''Hello '', None)]"
  "emission sample_parse (\<lambda>v. []) (stream_lines hello_stream) = [(js ''Hello '', None)]"
  "emission sample_parse (\<lambda>v. []) (stream_lines world_stream) = [(js ''world'', None)]"
  "emission sample_parse (\<lambda>v. []) (stream_lines garbled_stream) = []"
  "emission sample_parse (\<lambda>v. []) (stream_lines truncated_stream) = []"
  unfolding sample_lines emission_def
  by (simp_all add: line_defs)

text \<open>The two uploads that overlap, step by step.\<close>

lemma resume_read_done:
  "\<not> doneReading s \<Longrightarrow> has_done (lines_of c) \<Longrightarrow>
   resume parse tostr hf h (AwaitRead s (Chunk c # rest)) =
     (finally_block hf (fst (finish (h, advance parse tostr s (before_done (lines_of c))))), None)"
  by (simp add: process_lines_eq doneReading_finish)

lemma sample_advance:
  "advance sample_parse (\<lambda>v. []) \<lparr>fullText = [], usage = None, doneReading = False\<rparr>
     (before_done (stream_lines hello_stream)) =
   \<lparr>fullText = js ''Hello '', usage = None, doneReading = False\<rparr>"
  "advance sample_parse (\<lambda>v. []) \<lparr>fullText = [], usage = None, doneReading = False\<rparr>
     (before_done (stream_lines world_stream)) =
   \<lparr>fullText = js ''world'', usage = None, doneReading = False\<rparr>"
  "has_done (stream_lines hello_stream)" "has_done (stream_lines world_stream)"
  unfolding sample_lines
  by (simp_all add: advance_def line_defs)

lemma resume_sample:
  "resume sample_parse (\<lambda>v. []) hf h
     (AwaitRead \<lparr>fullText = [], usage = None, doneReading = False\<rparr> (map Chunk hello_stream)) =
   (finally_block hf
      (if emittedRef h then h
       else h\<lparr>emittedRef := True, transcriptions := transcriptions h @ [(js ''Hello '', None)]\<rparr>),
    None)"
  "resume sample_parse (\<lambda>v. []) hf h
     (AwaitRead \<lparr>fullText = [], usage = None, doneReading = False\<rparr> (map Chunk world_stream)) =
   (finally_block hf
      (if emittedRef h then h
       else h\<lparr>emittedRef := True, transcriptions := transcriptions h @ [(js ''world'', None)]\<rparr>),
    None)"
proof -
  have h: "map Chunk hello_stream = [Chunk (hd hello_stream)]"
    and l: "lines_of (hd hello_stream) = stream_lines hello_stream"
    by (simp_all add: hello_stream_def stream_lines_def)
  have nb: "trim (js ''Hello '') \<noteq> []" "trim (js ''world'') \<noteq> []"
    by (simp_all add: js_def trim_def is_space_numeral)
  show "resume sample_parse (\<lambda>v. []) hf h
     (AwaitRead \<lparr>fullText = [], usage = None, doneReading = False\<rparr> (map Chunk hello_stream)) =
   (finally_block hf
      (if emittedRef h then h
       else h\<lparr>emittedRef := True, transcriptions := transcriptions h @ [(js ''Hello '', None)]\<rparr>),
    None)"
    unfolding h
    by (subst resume_read_done) (simp_all add: l sample_advance finish_def nb)
  have h: "map Chunk world_stream = [Chunk (hd world_stream)]"
    and l: "lines_of (hd world_stream) = stream_lines world_stream"
    by (simp_all add: world_stream_def stream_lines_def)
  show "resume sample_parse (\<lambda>v. []) hf h
     (AwaitRead \<lparr>fullText = [], usage = None, doneReading = False\<rparr> (map Chunk world_stream)) =
   (finally_block hf
      (if emittedRef h then h
       else h\<lparr>emittedRef := True, transcriptions := transcriptions h @ [(js ''world'', None)]\<rparr>),
    None)"
    unfolding h
    by (subst resume_read_done) (simp_all add: l sample_advance finish_def nb)
qed

lemma overlapping_run:
  "uploads_run sample_parse (\<lambda>v. []) fresh_hook overlapping =
     (\<lparr>emittedRef = True, transcriptions = [(js ''Hello '', None)], spinner_stopped = True\<rparr>,
      [None, None])"
  unfolding uploads_run_def overlapping_def fresh_hook_def
  by (simp add: call_def resume_sample finally_block_def del: resume.simps(5))

text \<open>
  Claim C5, as the code has it. The claim's ``the sentinel triggers exactly one
  invocation'' fails on a blank transcript: the guard \<^verbatim>\<open>fullText.trim()\<close> suppresses the
  call. Take an upload during which no other call of \<^verbatim>\<open>sendAudioToAPI\<close> runs, whatever the
  hook was left with before, whose reads all succeed and deliver whole lines, and let
  \<open>ls\<close> be the lines of the stream. The transcript is the concatenation, in arrival
  order, of the deltas on the lines before the first sentinel; if there is a sentinel and
  that transcript is not blank, \<^verbatim>\<open>onNewTranscription\<close> is called exactly once, with the
  transcript and the usage of the last usage event before the sentinel (none if there was
  none); otherwise it is not called. For every response whatsoever such an upload makes
  at most one call; and however the uploads of a hook overlap, whatever their responses,
  there are at most as many calls as uploads.
\<close>

theorem transcription_emission:
  assumes "list_all whole_lines chunks"
  shows "transcriptions
           (sendAudioToAPI parse tostr hf h (Response True (Some (map Chunk chunks)))) =
         transcriptions h
           @ (if has_done (lines_of (concat chunks))
                 \<and> trim (transcript parse tostr [] (before_done (lines_of (concat chunks))))
                       \<noteq> []
              then [(transcript parse tostr [] (before_done (lines_of (concat chunks))),
                     last_usage parse None (before_done (lines_of (concat chunks))))]
              else [])
       \<and> length (transcriptions (sendAudioToAPI parse tostr hf h res))
           \<le> length (transcriptions h) + 1
       \<and> length (transcriptions (fst (uploads_run parse tostr h es)))
           \<le> length (transcriptions h) + length (filter is_call es)"
proof -
  have "transcriptions
          (sendAudioToAPI parse tostr hf h (Response True (Some (map Chunk chunks)))) =
        transcriptions h @ emission parse tostr (lines_of (concat chunks))"
    using stream_lines_whole [OF assms]
    by (simp add: send_transcriptions read_throws_chunks emission_chunks_read)
  moreover have "length (transcriptions (sendAudioToAPI parse tostr hf h res))
                   \<le> length (transcriptions h) + 1"
    using length_emission [of parse tostr "stream_lines (body_read res)"]
    by (simp add: send_transcriptions)
  moreover have "length (transcriptions (fst (uploads_run parse tostr h es)))
                   \<le> length (transcriptions h) + length (filter is_call es)"
    using uploads_bound [of "[]" parse tostr h es] by (simp add: uploads_run_def)
  ultimately show ?thesis by (simp add: emission_def)
qed

text \<open>
  An instance: two deltas and a usage event in a first chunk, a third line, the sentinel
  and a repeated sentinel in a second chunk. One call, with \<open>Hello world\<close>.
\<close>

theorem transcription_emission_witness:
  "transcriptions
     (sendAudioToAPI sample_parse (\<lambda>v. []) True fresh_hook
        (Response True (Some (map Chunk sample_stream)))) =
     [(js ''Hello world'',
       Some \<lparr>cost_t = JNum (num 1 2), promptChar = JNum (num 11 1),
             latencyMs = JNum (Finite False 0 0), ttfcMs = JNum (Finite False 0 0)\<rparr>)]"
proof -
  have w: "list_all whole_lines sample_stream"
    by (simp add: sample_stream_def whole_lines_def)
  have l: "lines_of (concat sample_stream) =
      [line_hello, line_usage, line_world, js ''data: [DONE]'', js ''data: [DONE]'']"
    using stream_lines_whole [OF w] sample_lines(1) by simp
  show ?thesis
    unfolding transcription_emission [OF w, of sample_parse "\<lambda>v. []" True fresh_hook,
        THEN conjunct1] l
    by (simp add: fresh_hook_def line_defs)
qed

text \<open>
  The claim as stated fails in three ways. On the stream that is just the sentinel, a
  \<^verbatim>\<open>data: [DONE]\<close> line arrives and \<^verbatim>\<open>onNewTranscription\<close> is not called (the explicit
  guard on a blank transcript). On a stream whose sentinel is cut in two by the boundary
  between two chunks, the stream holds a delta and a sentinel line and nothing is emitted:
  each chunk is split into lines on its own. And when two uploads of the hook overlap,
  each with a delta and a sentinel, the sentinel of the second triggers no call: the first
  has set \<^verbatim>\<open>emittedRef\<close>, which both share.
\<close>

theorem transcription_emission_counterexample:
  "has_done (lines_of (concat blank_stream)) \<and>
   transcriptions
     (sendAudioToAPI sample_parse (\<lambda>v. []) False fresh_hook
        (Response True (Some (map Chunk blank_stream)))) = [] \<and>
   emission sample_parse (\<lambda>v. []) (lines_of (concat cut_stream)) = [(js ''Hello '', None)] \<and>
   transcriptions
     (sendAudioToAPI sample_parse (\<lambda>v. []) False fresh_hook
        (Response True (Some (map Chunk cut_stream)))) = [] \<and>
   emission sample_parse (\<lambda>v. []) (stream_lines world_stream) = [(js ''world'', None)] \<and>
   uploads_run sample_parse (\<lambda>v. []) fresh_hook overlapping =
     (\<lparr>emittedRef = True, transcriptions = [(js ''Hello '', None)], spinner_stopped = True\<rparr>,
      [None, None])"
proof -
  have "has_done (lines_of (concat blank_stream))"
    by (simp add: blank_stream_def lines_of_def line_defs)
  moreover have "transcriptions
     (sendAudioToAPI sample_parse (\<lambda>v. []) False fresh_hook
        (Response True (Some (map Chunk blank_stream)))) = []"
    by (simp add: send_transcriptions read_throws_chunks emission_chunks_read sample_emissions
        fresh_hook_def)
  moreover have "transcriptions
     (sendAudioToAPI sample_parse (\<lambda>v. []) False fresh_hook
        (Response True (Some (map Chunk cut_stream)))) = []"
    by (simp add: send_transcriptions read_throws_chunks emission_chunks_read sample_emissions
        fresh_hook_def)
  ultimately show ?thesis
    by (simp add: sample_emissions overlapping_run)
qed

text \<open>
  Claim C9, as the code has it. The claim's ``every stream failure'' fails where the
  stream itself is faulty: an event that does not parse is skipped (the inner \<^verbatim>\<open>catch\<close>
  is empty), and a stream that ends without sentinel just ends the loop; neither leads to
  the fixed text. What does is an exception of the \<^verbatim>\<open>try\<close> block: the fetch rejects, the
  response is not \<^verbatim>\<open>ok\<close>, it has no body, or a read rejects before a sentinel was seen.
  For every state of the hook and every response \<open>res\<close>, an upload during which no other
  runs makes exactly one call of \<^verbatim>\<open>onNewTranscription\<close>, with the text
  \<open>Failed to process audio\<close> and no usage, when \<open>res\<close> makes the \<^verbatim>\<open>try\<close> block throw,
  whatever was read before; and otherwise it makes only the call, if any, that the chunks
  read make the sentinel emit. In both cases the function goes through its \<^verbatim>\<open>finally\<close>
  block and returns: the spinner is stopped unless handsfree is active.
\<close>

theorem transcription_failure_resolved:
  "transcriptions (sendAudioToAPI parse tostr hf h res) =
     transcriptions h
       @ (if throws res then [(js ''Failed to process audio'', None)]
          else emission parse tostr (stream_lines (body_read res))) \<and>
   spinner_stopped (sendAudioToAPI parse tostr hf h res) =
     (if hf then spinner_stopped h else True)"
  by (simp add: send_transcriptions send_spinner)

text \<open>
  The claim as stated fails on a stream whose event does not parse and on a stream that
  ends after a delta, without sentinel: no call is made at all. (A read that rejects
  after the same delta gives the fixed text.)
\<close>

theorem transcription_failure_counterexample:
  "sample_parse (trim (drop 6 line_garbled)) = None \<and>
   transcriptions
     (sendAudioToAPI sample_parse (\<lambda>v. []) False fresh_hook
        (Response True (Some (map Chunk garbled_stream)))) = [] \<and>
   transcriptions
     (sendAudioToAPI sample_parse (\<lambda>v. []) False fresh_hook
        (Response True (Some (map Chunk truncated_stream)))) = [] \<and>
   transcriptions
     (sendAudioToAPI sample_parse (\<lambda>v. []) False fresh_hook
        (Response True (Some (map Chunk truncated_stream @ [ReadRejects])))) =
     [(js ''Failed to process audio'', None)]"
proof -
  have "sample_parse (trim (drop 6 line_garbled)) = None"
    by (simp add: line_defs)
  moreover have "transcriptions
     (sendAudioToAPI sample_parse (\<lambda>v. []) False fresh_hook
        (Response True (Some (map Chunk garbled_stream)))) = []"
    by (simp add: send_transcriptions read_throws_chunks emission_chunks_read sample_emissions
        fresh_hook_def)
  moreover have "transcriptions
     (sendAudioToAPI sample_parse (\<lambda>v. []) False fresh_hook
        (Response True (Some (map Chunk truncated_stream)))) = []"
    by (simp add: send_transcriptions read_throws_chunks emission_chunks_read sample_emissions
        fresh_hook_def)
  moreover have "transcriptions
     (sendAudioToAPI sample_parse (\<lambda>v. []) False fresh_hook
        (Response True (Some (map Chunk truncated_stream @ [ReadRejects])))) =
     [(js ''Failed to process audio'', None)]"
    using sample_lines(8)
    by (simp add: send_transcriptions truncated_stream_def stream_lines_def fresh_hook_def
        line_defs)
  ultimately show ?thesis by simp
qed

section \<open>Evaluation of numbers\<close>

declare bits.simps [simp del]

lemma bits_numeral [simp]:
  "bits 0 = 0" "bits 1 = 1" "bits (numeral k) = 1 + bits (numeral k div 2)"
  by (simp_all add: bits.simps)

lemmas num_defs = num_def to_double_def binade_def round_half_even_def Let_def

text \<open>
  The arithmetic is that of doubles: the sum of the doubles \<open>0.1\<close> and \<open>0.2\<close> is the double
  \<open>0.30000000000000004\<close>, not the double \<open>0.3\<close>; \<^verbatim>\<open>Math.round\<close> takes a tie up, also
  below zero, and keeps the sign of a value that rounds to zero.
\<close>

lemma js_add_inexact:
  "js_add (num 1 10) (num 2 10) = num 30000000000000004 100000000000000000"
  "js_add (num 1 10) (num 2 10) \<noteq> num 3 10"
  by (simp_all add: num_defs)

lemma Math_round_ties:
  "Math_round (num 5 2) = num 3 1"
  "Math_round (num (- 5) 2) = num (- 2) 1"
  "Math_round (num 7 2) = num 4 1"
  "Math_round (num 1 4) = Finite False 0 0"
  "Math_round (num (- 1) 2) = Finite True 0 0"
  by (simp_all add: num_defs)

section \<open>Properties of the TTS player\<close>

lemma playTTS_short_a:
  "playTTS None False (Gives True) fetch_cached (js ''a'') (js ''Hi.'') False None =
     ([Enqueue \<lparr>buffer = 3, baseMessageId = js ''a'', isHandsfree = False, lastChunk = True,
                onComplete = None\<rparr>], Gives None)"
  by (simp add: playTTS_def chunk_short js_def fetch_cached_def aggregate_def usage_field_def
      or_zero_def)

lemma playTTS_short_b:
  "playTTS None False (Gives True) fetch_cached (js ''b'') (js ''Hello!'') False None =
     ([Enqueue \<lparr>buffer = 6, baseMessageId = js ''b'', isHandsfree = False, lastChunk = True,
                onComplete = None\<rparr>], Gives None)"
  by (simp add: playTTS_def chunk_short js_def fetch_cached_def aggregate_def usage_field_def
      or_zero_def)

lemma two_turns_eq:
  "two_turns =
     [Act (Enqueue \<lparr>buffer = 3, baseMessageId = js ''a'', isHandsfree = False,
                    lastChunk = True, onComplete = None\<rparr>),
      Act (Enqueue \<lparr>buffer = 6, baseMessageId = js ''b'', isHandsfree = False,
                    lastChunk = True, onComplete = None\<rparr>),
      Ready True True, Ready True True]"
  by (simp add: two_turns_def playTTS_short_a playTTS_short_b)

lemmas player_defs =
  player_run_def idle_player_def enqueueBuffer_def maybeStartNext_def after_ready_def
  start_node_def on_ended_def run_microtask_def

subsection \<open>The queue without interleaving\<close>

lemma started_append: "started (xs @ ys) = started xs @ started ys"
  by (induction xs rule: started.induct) simp_all

lemma settle_idle:
  "awaiting_ready s = 0 \<Longrightarrow> microtasks s = [] \<Longrightarrow> awaiting_play s = [] \<Longrightarrow> settle hs s = s"
  by (simp add: settle_def player_run_def run_microtask_def)

text \<open>
  An invocation of \<^verbatim>\<open>maybeStartNext\<close> that resumes on an idle pipeline with a
  non-empty queue starts the head of the queue.
\<close>

lemma resume_idle:
  assumes "awaiting_ready s = Suc 0" and "awaiting_play s = []"
    and "playQueue s = q # qs" and "currentNode s = None" and "microtasks s = []"
  shows "player_run hs s [Ready True True, Played (Suc (created s)) True, Microtask] =
     s\<lparr>awaiting_ready := 0, isDequeuing := True, playQueue := qs,
       created := Suc (created s), currentNode := Some (Suc (created s)),
       muted := (if hs then False else muted s), isPlaying := True,
       currentMessageId := Some (baseMessageId q),
       signals := signals s @ [TtsStartedFlag, NodeStarted (Suc (created s)) (buffer q),
                               TtsPlaybackStarted],
       active := active s @ [Suc (created s)],
       ending := ending s @ [(Suc (created s), q)]\<rparr>"
proof (cases hs)
  case True
  have "player_step hs s (Ready True True) =
      s\<lparr>awaiting_ready := 0, isDequeuing := True, playQueue := qs,
        created := Suc (created s), currentNode := Some (Suc (created s)), muted := False,
        awaiting_play := [(Suc (created s), q)]\<rparr>"
    using assms True by (simp add: after_ready_def Let_def)
  then show ?thesis
    using assms True by (simp add: player_run_def start_node_def run_microtask_def Let_def)
next
  case False
  have "player_step hs s (Ready True True) =
      s\<lparr>awaiting_ready := 0, isDequeuing := True, playQueue := qs,
        created := Suc (created s), currentNode := Some (Suc (created s)),
        isPlaying := True, currentMessageId := Some (baseMessageId q),
        signals := signals s @ [TtsStartedFlag, NodeStarted (Suc (created s)) (buffer q)],
        microtasks := [DispatchPlaybackStarted],
        active := active s @ [Suc (created s)],
        ending := ending s @ [(Suc (created s), q)]\<rparr>"
    using assms False by (simp add: after_ready_def start_node_def Let_def)
  then show ?thesis
    using assms False by (simp add: player_run_def run_microtask_def)
qed

lemma settled_enqueue:
  assumes "settled s"
  shows "settled (settle hs (enqueueBuffer it s)) \<and>
         started (signals (settle hs (enqueueBuffer it s)))
           @ map buffer (playQueue (settle hs (enqueueBuffer it s)))
         = started (signals s) @ map buffer (playQueue s) @ [buffer it]"
proof (cases "isDequeuing s")
  case True
  then have e: "enqueueBuffer it s = s\<lparr>playQueue := playQueue s @ [it]\<rparr>"
    by (simp add: enqueueBuffer_def maybeStartNext_def)
  have "settle hs (s\<lparr>playQueue := playQueue s @ [it]\<rparr>) = s\<lparr>playQueue := playQueue s @ [it]\<rparr>"
    using assms by (simp add: settle_idle settled_def)
  with e True assms show ?thesis by (simp add: settled_def)
next
  case False
  with assms have z: "awaiting_ready s = 0" "awaiting_play s = []" "microtasks s = []"
    "active s = []" "ending s = []" "currentNode s = None" "playQueue s = []"
    by (simp_all add: settled_def)
  let ?t = "s\<lparr>playQueue := [it], awaiting_ready := Suc 0\<rparr>"
  have e: "enqueueBuffer it s = ?t"
    using False z by (simp add: enqueueBuffer_def maybeStartNext_def)
  have m: "settle hs ?t =
      player_run hs ?t [Ready True True, Played (Suc (created ?t)) True, Microtask]"
    using z by (simp add: settle_def player_run_def run_microtask_def)
  have r: "awaiting_ready ?t = Suc 0" "awaiting_play ?t = []" "playQueue ?t = it # []"
    "currentNode ?t = None" "microtasks ?t = []"
    using z by simp_all
  show ?thesis
    unfolding e m resume_idle [OF r]
    using z by (simp add: settled_def started_append)
qed

lemma ended_busy:
  assumes "ending s = [(n, it)]" and "active s = [n]" and "currentNode s = Some n"
  shows "player_step hs s (Ended n) =
     (if playQueue s = []
      then s\<lparr>ending := [], active := [], currentNode := None, isPlaying := False,
             currentMessageId := None, muted := True, isDequeuing := False,
             microtasks := microtasks s @ [CallMaybeStartNext],
             signals := signals s
               @ (case onComplete it of
                    None \<Rightarrow> []
                  | Some cb \<Rightarrow> if lastChunk it then [CompleteCallbackIn50 cb] else [])
               @ (if isHandsfree it then [TtsOnCompleteIn50] else [])\<rparr>
      else s\<lparr>ending := [], active := [], currentNode := None, isDequeuing := False,
             microtasks := microtasks s @ [CallMaybeStartNext],
             signals := signals s
               @ (case onComplete it of
                    None \<Rightarrow> []
                  | Some cb \<Rightarrow> if lastChunk it then [CompleteCallbackIn50 cb] else [])\<rparr>)"
  using assms by (simp add: on_ended_def Let_def split: option.splits)

lemma started_timeouts:
  "started (case c of None \<Rightarrow> [] | Some cb \<Rightarrow> if l then [CompleteCallbackIn50 cb] else []) = []"
  "started (if h then [TtsOnCompleteIn50] else []) = []"
  by (simp_all split: option.splits)

lemma settled_ended:
  assumes "settled s" and "active s = n # ns"
  shows "settled (settle hs (player_step hs s (Ended n))) \<and>
         started (signals (settle hs (player_step hs s (Ended n))))
           @ map buffer (playQueue (settle hs (player_step hs s (Ended n))))
         = started (signals s) @ map buffer (playQueue s)"
proof -
  from assms obtain it where d: "isDequeuing s" and a: "active s = [created s]"
    and e: "ending s = [(created s, it)]" and c: "currentNode s = Some (created s)"
    and n: "n = created s"
    and z: "awaiting_ready s = 0" "awaiting_play s = []" "microtasks s = []"
    by (auto simp add: settled_def split: if_splits)
  note st = ended_busy [OF e a c, of hs]
  show ?thesis
  proof (cases "playQueue s")
    case Nil
    let ?t = "player_step hs s (Ended (created s))"
    have "settle hs ?t = ?t\<lparr>microtasks := []\<rparr>"
      unfolding st using Nil z
      by (simp add: settle_def player_run_def maybeStartNext_def run_microtask_def)
    then show ?thesis
      unfolding n st using Nil z
      by (simp add: settled_def started_append started_timeouts)
  next
    case (Cons q qs)
    let ?t = "player_step hs s (Ended (created s))"
    let ?u = "?t\<lparr>microtasks := [], awaiting_ready := Suc 0\<rparr>"
    have m: "settle hs ?t =
        player_run hs ?u [Ready True True, Played (Suc (created ?u)) True, Microtask]"
      unfolding st using Cons z
      by (simp add: settle_def player_run_def maybeStartNext_def run_microtask_def)
    have r: "awaiting_ready ?u = Suc 0" "awaiting_play ?u = []" "playQueue ?u = q # qs"
      "currentNode ?u = None" "microtasks ?u = []"
      unfolding st using Cons z by simp_all
    show ?thesis
      unfolding n m resume_idle [OF r]
      unfolding st using Cons z
      by (simp add: settled_def started_append started_timeouts)
  qed
qed

lemma serial_run_inv:
  "settled s \<Longrightarrow>
   settled (serial_run hs s es) \<and>
   started (signals (serial_run hs s es)) @ map buffer (playQueue (serial_run hs s es))
     = started (signals s) @ map buffer (playQueue s) @ enqueued es"
proof (induction es arbitrary: s)
  case Nil
  then show ?case by simp
next
  case (Cons e es)
  show ?case
  proof (cases e)
    case (SEnqueue it)
    from settled_enqueue [OF Cons.prems, of hs it]
    have q: "settled (settle hs (enqueueBuffer it s))"
      and t: "started (signals (settle hs (enqueueBuffer it s)))
           @ map buffer (playQueue (settle hs (enqueueBuffer it s)))
         = started (signals s) @ map buffer (playQueue s) @ [buffer it]" by simp_all
    from Cons.IH [OF q] t SEnqueue show ?thesis by simp
  next
    case SEnded
    show ?thesis
    proof (cases "active s")
      case Nil
      with Cons.IH [OF Cons.prems] SEnded show ?thesis by simp
    next
      case (Cons n ns)
      from settled_ended [OF Cons.prems Cons, of hs]
      have q: "settled (settle hs (player_step hs s (Ended n)))"
        and t: "started (signals (settle hs (player_step hs s (Ended n))))
           @ map buffer (playQueue (settle hs (player_step hs s (Ended n))))
         = started (signals s) @ map buffer (playQueue s)" by simp_all
      from Cons.IH [OF q] t SEnded Cons show ?thesis by simp
    qed
  qed
qed

text \<open>
  When every invocation of \<^verbatim>\<open>maybeStartNext\<close> resumes before the next callback runs,
  the queue discipline holds: at most one node is active, and the buffers are started
  in the order in which they were enqueued.
\<close>

lemma serial_playback:
  "length (active (serial_run hs idle_player es)) \<le> 1 \<and>
   prefix (started (signals (serial_run hs idle_player es))) (enqueued es)"
proof -
  have i: "settled idle_player" by (simp add: settled_def idle_player_def)
  from serial_run_inv [OF i, of hs es]
  have q: "settled (serial_run hs idle_player es)"
    and t: "started (signals (serial_run hs idle_player es))
              @ map buffer (playQueue (serial_run hs idle_player es)) = enqueued es"
    by (simp_all add: idle_player_def)
  from q have "length (active (serial_run hs idle_player es)) \<le> 1"
    by (auto simp add: settled_def split: if_splits)
  moreover from t have "prefix (started (signals (serial_run hs idle_player es))) (enqueued es)"
    by (metis prefixI)
  ultimately show ?thesis by simp
qed


subsection \<open>The queue when callbacks fall between\<close>

text \<open>
  Claim C1, at failing inputs. Two calls of \<^verbatim>\<open>playTTS\<close> on the distinct turns \<open>a\<close> and
  \<open>b\<close> enqueue their chunks one after the other, before the \<^verbatim>\<open>maybeStartNext\<close> of the
  first enqueue has resumed from \<^verbatim>\<open>await ensurePlaybackReady()\<close>. The guard
  \<^verbatim>\<open>isDequeuingRef\<close> is tested before that \<^verbatim>\<open>await\<close> and set after it, so both
  invocations pass it, and each starts a node: the nodes 1 and 2 are active together.
  Where the audio element carries a stream, the first invocation waits for
  \<^verbatim>\<open>el.play()\<close> in addition and the second chunk (buffer 6) is started before the first
  (buffer 3), against the order in which they were enqueued. The same happens with the
  invocation queued by a chunk's \<^verbatim>\<open>onended\<close> and that of a fresh enqueue: the nodes 2
  and 3 are active together. (Without such interleaving the discipline holds, by
  \<open>serial_playback\<close>.)
\<close>

theorem playback_queue_race:
  "active (player_run False idle_player two_turns) = [1, 2] \<and>
   active (player_run True idle_player (two_turns @ [Played 1 True, Microtask])) = [2, 1] \<and>
   signals (player_run True idle_player (two_turns @ [Played 1 True, Microtask])) =
     [NodeStarted 2 6, TtsStartedFlag, NodeStarted 1 3, TtsPlaybackStarted] \<and>
   started (signals (player_run True idle_player (two_turns @ [Played 1 True, Microtask]))) =
     [6, 3] \<and>
   active (player_run False idle_player ended_and_enqueue) = [2, 3]"
  unfolding two_turns_eq ended_and_enqueue_def
  by (simp add: player_defs chunk_of_def)

subsection \<open>A turn whose items signal no completion\<close>

text \<open>
  While no item of the pipeline carries the handsfree flag or a completion callback, no
  \<^verbatim>\<open>onended\<close> signals a completion: the only such signals are the immediate dispatches
  of \<^verbatim>\<open>playTTS\<close>.
\<close>

lemma quiet_idle: "quiet_items idle_player"
  by (simp add: quiet_items_def items_of_def idle_player_def)

lemma items_maybeStartNext: "items_of (maybeStartNext s) = items_of s"
  by (simp add: maybeStartNext_def items_of_def)

lemma signals_maybeStartNext: "signals (maybeStartNext s) = signals s"
  by (simp add: maybeStartNext_def)

lemma complete_append:
  "complete_signals (xs @ ys) = complete_signals xs @ complete_signals ys"
  by (simp add: complete_signals_def)

lemma quiet_start_node:
  "quiet_items s \<Longrightarrow> quiet it \<Longrightarrow> quiet_items (start_node starts w n it s) \<and>
     complete_signals (signals (start_node starts w n it s)) = complete_signals (signals s)"
  by (simp add: start_node_def Let_def quiet_items_def items_of_def complete_signals_def)

lemma quiet_after_ready:
  assumes q: "quiet_items s"
  shows "quiet_items (after_ready hs ok starts s) \<and>
     complete_signals (signals (after_ready hs ok starts s)) = complete_signals (signals s)"
proof (cases "ok")
  case False
  with q show ?thesis by (simp add: after_ready_def)
next
  case ok: True
  show ?thesis
  proof (cases "playQueue s")
    case Nil
    with ok q show ?thesis
      by (simp add: after_ready_def quiet_items_def items_of_def complete_signals_def)
  next
    case (Cons it rest)
    let ?s2 = "s\<lparr>isDequeuing := True, playQueue := rest, created := Suc (created s),
                  currentNode := Some (Suc (created s))\<rparr>"
    from q Cons have nh: "quiet it" and q2: "quiet_items ?s2"
      by (simp_all add: quiet_items_def items_of_def)
    show ?thesis
    proof (cases "currentNode s = None \<and> hs")
      case True
      with ok Cons q nh show ?thesis
        by (simp add: after_ready_def Let_def quiet_items_def items_of_def)
    next
      case False
      then have "after_ready hs ok starts s =
          start_node starts (currentNode s = None) (Suc (created s)) it ?s2"
        using ok Cons by (auto simp add: after_ready_def Let_def)
      with quiet_start_node [OF q2 nh, of starts "currentNode s = None" "Suc (created s)"]
      show ?thesis by simp
    qed
  qed
qed

lemma quiet_on_ended:
  "quiet_items s \<Longrightarrow> quiet it \<Longrightarrow> quiet_items (on_ended n it s) \<and>
     complete_signals (signals (on_ended n it s)) = complete_signals (signals s)"
  by (simp add: on_ended_def Let_def quiet_items_def items_of_def complete_signals_def quiet_def
      split: option.splits)

lemma list_all_map_of:
  "list_all P (map snd xs) \<Longrightarrow> map_of xs k = Some v \<Longrightarrow> P v"
  by (induction xs) (auto split: if_splits)

lemma list_all_map_filter:
  "list_all P (map snd xs) \<Longrightarrow> list_all P (map snd (filter Q xs))"
  by (induction xs) simp_all

lemma quiet_update:
  "quiet_items (s\<lparr>awaiting_ready := a\<rparr>) = quiet_items s"
  "quiet_items (s\<lparr>microtasks := m\<rparr>) = quiet_items s"
  "quiet_items (s\<lparr>signals := g\<rparr>) = quiet_items s"
  "quiet_items (s\<lparr>microtasks := m, signals := g\<rparr>) = quiet_items s"
  by (simp_all add: quiet_items_def items_of_def)

lemma quiet_enqueue:
  "quiet_items s \<Longrightarrow> quiet it \<Longrightarrow> quiet_items (enqueueBuffer it s) \<and>
     signals (enqueueBuffer it s) = signals s"
  by (simp add: enqueueBuffer_def maybeStartNext_def quiet_items_def items_of_def)

lemma quiet_microtask:
  "quiet_items s \<Longrightarrow> quiet_items (player_step hs s Microtask) \<and>
     complete_signals (signals (player_step hs s Microtask)) = complete_signals (signals s)"
  by (simp add: run_microtask_def maybeStartNext_def quiet_items_def items_of_def
      complete_signals_def split: list.splits microtask.splits)

lemma quiet_teardown:
  "quiet_items s \<Longrightarrow> quiet_items (teardownPipeline s) \<and>
     signals (teardownPipeline s) = signals s"
  by (simp add: teardownPipeline_def quiet_items_def items_of_def)

lemma quiet_played:
  assumes "quiet_items s"
  shows "quiet_items (player_step hs s (Played n starts)) \<and>
     complete_signals (signals (player_step hs s (Played n starts))) = complete_signals (signals s)"
proof (cases "map_of (awaiting_play s) n")
  case None
  with assms show ?thesis by simp
next
  case (Some it)
  have a: "list_all quiet (map snd (awaiting_play s))"
    using assms by (simp add: quiet_items_def items_of_def)
  from list_all_map_of [OF a Some] have nh: "quiet it" .
  have "list_all quiet
          (map snd (filter (\<lambda>p. fst p \<noteq> n) (awaiting_play s)))"
    using a by (rule list_all_map_filter)
  then have q: "quiet_items (s\<lparr>awaiting_play := filter (\<lambda>p. fst p \<noteq> n) (awaiting_play s)\<rparr>)"
    using assms by (simp add: quiet_items_def items_of_def)
  from quiet_start_node [OF q nh, of starts True n] Some show ?thesis by simp
qed

lemma quiet_ended:
  assumes "quiet_items s"
  shows "quiet_items (player_step hs s (Ended n)) \<and>
     complete_signals (signals (player_step hs s (Ended n))) = complete_signals (signals s)"
proof (cases "map_of (ending s) n")
  case None
  with assms show ?thesis by simp
next
  case (Some it)
  have a: "list_all quiet (map snd (ending s))"
    using assms by (simp add: quiet_items_def items_of_def)
  from list_all_map_of [OF a Some] have nh: "quiet it" .
  have "list_all quiet
          (map snd (filter (\<lambda>p. fst p \<noteq> n) (ending s)))"
    using a by (rule list_all_map_filter)
  then have q: "quiet_items (s\<lparr>ending := filter (\<lambda>p. fst p \<noteq> n) (ending s),
               active := removeAll n (active s)\<rparr>)"
    using assms by (simp add: quiet_items_def items_of_def)
  from quiet_on_ended [OF q nh, of n] Some show ?thesis by simp
qed

lemma quiet_ready:
  assumes "quiet_items s"
  shows "quiet_items (player_step hs s (Ready ok starts)) \<and>
     complete_signals (signals (player_step hs s (Ready ok starts))) = complete_signals (signals s)"
proof -
  have "quiet_items (s\<lparr>awaiting_ready := awaiting_ready s - 1\<rparr>)"
    using assms by (simp add: quiet_update)
  from quiet_after_ready [OF this, of hs ok starts] assms show ?thesis by simp
qed

lemma quiet_step:
  assumes "quiet_items s" and "list_all quiet_action (actions_of [e])"
  shows "quiet_items (player_step hs s e) \<and>
     complete_signals (signals (player_step hs s e))
       = complete_signals (signals s) @ replicate (dispatches (actions_of [e])) TtsOnComplete"
proof (cases e)
  case (Act a)
  show ?thesis
  proof (cases a)
    case (Enqueue it)
    with Act assms(2) have "quiet it" by simp
    from quiet_enqueue [OF assms(1) this] Act Enqueue show ?thesis by simp
  next
    case DispatchComplete
    with Act assms(1) show ?thesis
      by (simp add: quiet_update complete_signals_def)
  qed
next
  case (Ready ok starts)
  with quiet_ready [OF assms(1), of hs ok starts] show ?thesis by simp
next
  case (Played n starts)
  with quiet_played [OF assms(1), of hs n starts] show ?thesis by simp
next
  case (Ended n)
  with quiet_ended [OF assms(1), of hs n] show ?thesis by simp
next
  case Microtask
  with quiet_microtask [OF assms(1), of hs] show ?thesis by simp
next
  case Teardown
  with quiet_teardown [OF assms(1)] show ?thesis by simp
qed

lemma actions_of_Cons: "actions_of (e # es) = actions_of [e] @ actions_of es"
  by (cases e) simp_all

lemma dispatches_append: "dispatches (xs @ ys) = dispatches xs + dispatches ys"
  by (induction xs rule: dispatches.induct) simp_all

lemma actions_of_single: "actions_of [e] = [] \<or> (\<exists>a. e = Act a \<and> actions_of [e] = [a])"
  by (cases e) simp_all

lemma quiet_run:
  "quiet_items s \<Longrightarrow> list_all quiet_action (actions_of es) \<Longrightarrow>
   quiet_items (player_run hs s es) \<and>
   complete_signals (signals (player_run hs s es))
     = complete_signals (signals s) @ replicate (dispatches (actions_of es)) TtsOnComplete"
proof (induction es arbitrary: s)
  case Nil
  then show ?case by (simp add: player_run_def)
next
  case (Cons e es)
  from Cons.prems(2) have qa: "list_all quiet_action (actions_of [e])"
    and qas: "list_all quiet_action (actions_of es)"
    using actions_of_Cons [of e es] by simp_all
  from quiet_step [OF Cons.prems(1) qa, of hs]
  have q: "quiet_items (player_step hs s e)"
    and c: "complete_signals (signals (player_step hs s e))
       = complete_signals (signals s) @ replicate (dispatches (actions_of [e])) TtsOnComplete" by simp_all
  from Cons.IH [OF q qas] c show ?case
    using actions_of_Cons [of e es]
    by (simp add: player_run_def dispatches_append replicate_add)
qed

subsection \<open>\<^verbatim>\<open>playTTS\<close> on a text with a remainder\<close>

lemma playTTS_remainder_fails:
  assumes rem: "snd (chunkTextForTTS text) = Some r"
    and intro: "fetch (mid @ js ''-0'') (fst (chunkTextForTTS text)) = Gives (Some i)"
    and fail: "fetch (mid @ js ''-1'') r = Gives None"
    and fresh: "cur \<noteq> Some mid \<or> \<not> playing"
  shows "playTTS cur playing (Gives True) fetch mid text hf cb =
           ([Enqueue \<lparr>buffer = dbuffer i, baseMessageId = mid, isHandsfree = False,
                      lastChunk = False, onComplete = None\<rparr>]
              @ (if hf then [DispatchComplete] else []),
            Gives (dusage i))"
  using assms by (auto simp add: playTTS_def Let_def)

lemma playTTS_remainder_rejects:
  assumes rem: "snd (chunkTextForTTS text) = Some r"
    and intro: "fetch (mid @ js ''-0'') (fst (chunkTextForTTS text)) = Gives (Some i)"
    and fail: "fetch (mid @ js ''-1'') r = Throws"
    and fresh: "cur \<noteq> Some mid \<or> \<not> playing"
  shows "playTTS cur playing (Gives True) fetch mid text hf cb =
           ([Enqueue \<lparr>buffer = dbuffer i, baseMessageId = mid, isHandsfree = False,
                      lastChunk = False, onComplete = None\<rparr>],
            Throws)"
  using assms by (auto simp add: playTTS_def Let_def)

text \<open>
  When the text has a remainder, the intro is decoded and the remainder fails, then in
  every run whose actions are those of the call, however the other callbacks fall between
  them, the signals of playback completion (dispatches of \<^verbatim>\<open>tts-oncomplete\<close>, calls of
  the completion callback) are the one immediate dispatch of \<^verbatim>\<open>playTTS\<close> when the turn
  is a handsfree turn and the fetch resolved to \<^verbatim>\<open>null\<close>, and none otherwise: the end of
  the intro signals nothing.
\<close>

lemma remainder_failure_signals:
  assumes rem: "snd (chunkTextForTTS text) = Some r"
    and intro: "fetch (mid @ js ''-0'') (fst (chunkTextForTTS text)) = Gives (Some i)"
    and fail: "fetch (mid @ js ''-1'') r = Gives None \<or> fetch (mid @ js ''-1'') r = Throws"
    and fresh: "cur \<noteq> Some mid \<or> \<not> playing"
    and sched: "actions_of es = fst (playTTS cur playing (Gives True) fetch mid text hf cb)"
  shows "complete_signals (signals (player_run hasStream idle_player es))
           = (if hf \<and> fetch (mid @ js ''-1'') r = Gives None then [TtsOnComplete] else [])"
proof (cases "fetch (mid @ js ''-1'') r = Throws")
  case True
  note p = playTTS_remainder_rejects [OF rem intro True fresh, of hf cb]
  have q: "list_all quiet_action (actions_of es)"
    unfolding sched p by (simp add: quiet_def)
  have d: "dispatches (actions_of es) = 0"
    unfolding sched p by simp
  from quiet_run [OF quiet_idle q, of hasStream] d True show ?thesis
    by (simp add: idle_player_def complete_signals_def)
next
  case False
  with fail have n: "fetch (mid @ js ''-1'') r = Gives None" by simp
  note p = playTTS_remainder_fails [OF rem intro n fresh, of hf cb]
  have q: "list_all quiet_action (actions_of es)"
    unfolding sched p by (simp add: quiet_def)
  have d: "dispatches (actions_of es) = (if hf then 1 else 0)"
    unfolding sched p by simp
  from quiet_run [OF quiet_idle q, of hasStream] d n show ?thesis
    by (simp add: idle_player_def complete_signals_def)
qed

lemma remainder_fails_eq:
  "playTTS None False (Gives True) fetch_intro_only (js ''m'') sample_text True (Some 0) =
     ([Enqueue \<lparr>buffer = 44, baseMessageId = js ''m'', isHandsfree = False,
                lastChunk = False, onComplete = None\<rparr>, DispatchComplete],
      Gives (Some intro_usage))"
  by (simp add: playTTS_def chunk_sample_text fetch_intro_only_def is_intro_key_def js_def)

lemma remainder_rejects_eq:
  "playTTS None False (Gives True) fetch_intro_rejects (js ''m'') sample_text True (Some 0) =
     ([Enqueue \<lparr>buffer = 44, baseMessageId = js ''m'', isHandsfree = False,
                lastChunk = False, onComplete = None\<rparr>],
      Throws)"
  by (simp add: playTTS_def chunk_sample_text fetch_intro_rejects_def is_intro_key_def js_def)

text \<open>
  Claim C8, at failing inputs: a handsfree turn \<open>m\<close> on the sample text, with completion
  callback, whose intro is decoded and whose remainder fails. The intro is enqueued
  without the handsfree flag, not as last chunk and without the completion callback.

  Where the fetch of the remainder resolves to \<^verbatim>\<open>null\<close>, \<^verbatim>\<open>playTTS\<close> dispatches
  \<^verbatim>\<open>tts-oncomplete\<close> itself as soon as it learns of the failure and returns the usage of
  the intro: in the run \<open>intro_playing\<close> the signal is made while the node of the intro is
  active, and when the intro then ends no signal is made.

  Where the fetch of the remainder rejects, \<^verbatim>\<open>playTTS\<close> rejects at
  \<^verbatim>\<open>await remainderP\<close>: it returns no usage and dispatches nothing, and in the run
  \<open>intro_ended\<close> the intro has been played to its end without any signal of completion.
\<close>

theorem remainder_failure_signal:
  "playTTS None False (Gives True) fetch_intro_only (js ''m'') sample_text True (Some 0) =
     ([Enqueue \<lparr>buffer = 44, baseMessageId = js ''m'', isHandsfree = False,
                lastChunk = False, onComplete = None\<rparr>, DispatchComplete],
      Gives (Some intro_usage)) \<and>
   signals intro_playing =
     [TtsStartedFlag, NodeStarted 1 44, TtsPlaybackStarted, TtsOnComplete] \<and>
   active intro_playing = [1] \<and>
   signals (player_run False intro_playing [Ended 1, Microtask]) = signals intro_playing \<and>
   active (player_run False intro_playing [Ended 1, Microtask]) = [] \<and>
   playTTS None False (Gives True) fetch_intro_rejects (js ''m'') sample_text True (Some 0) =
     ([Enqueue \<lparr>buffer = 44, baseMessageId = js ''m'', isHandsfree = False,
                lastChunk = False, onComplete = None\<rparr>],
      Throws) \<and>
   signals intro_ended = [TtsStartedFlag, NodeStarted 1 44, TtsPlaybackStarted] \<and>
   active intro_ended = [] \<and> playQueue intro_ended = []"
  by (simp add: intro_playing_def intro_ended_def remainder_fails_def remainder_rejects_def
      remainder_fails_eq remainder_rejects_eq player_defs)

subsection \<open>The usage \<^verbatim>\<open>playTTS\<close> returns\<close>

text \<open>
  Claim C7. When the text has a remainder and both chunks come with a usage record that
  gives cost and character count, the usage \<^verbatim>\<open>playTTS\<close> returns has the sum of the two
  costs, the sum of the two character counts, and as latency the mean of the two
  latencies, rounded by \<^verbatim>\<open>Math.round\<close>, when both records give one, else the one that
  is given (and 0 when neither is). Sum and mean are those of the language, on doubles.
\<close>

theorem usage_aggregation:
  assumes rem: "snd (chunkTextForTTS text) = Some r"
    and intro: "fetch (mid @ js ''-0'') (fst (chunkTextForTTS text)) =
        Gives (Some \<lparr>dbuffer = b1,
                     dusage = Some \<lparr>cost = Some c1, char_count = Some n1, latency = l1\<rparr>\<rparr>)"
    and remd: "fetch (mid @ js ''-1'') r =
        Gives (Some \<lparr>dbuffer = b2,
                     dusage = Some \<lparr>cost = Some c2, char_count = Some n2, latency = l2\<rparr>\<rparr>)"
    and fresh: "cur \<noteq> Some mid \<or> \<not> playing"
  shows "snd (playTTS cur playing (Gives True) fetch mid text hf cb) =
           Gives (Some \<lparr>cost = Some (js_add c1 c2), char_count = Some (js_add n1 n2),
                        latency = Some (case (l1, l2) of
                                   (Some x, Some y) \<Rightarrow> Math_round (js_div (js_add x y) (num 2 1))
                                 | (Some x, None) \<Rightarrow> x
                                 | (None, Some y) \<Rightarrow> y
                                 | (None, None) \<Rightarrow> Finite False 0 0)\<rparr>)"
  using assms
  by (auto simp add: playTTS_def Let_def aggregate_def usage_field_def or_zero_def)

text \<open>
  The example of the specification: costs 0.001 and 0.002, 30 and 50 characters,
  latencies 100 and 200 give cost 0.003, 80 characters and latency 150. With latencies
  100 and 201 the mean 150.5 is rounded to 151, and with latencies 100 and 203 the mean
  151.5 to 152.
\<close>

theorem usage_aggregation_witness:
  "snd (playTTS None False (Gives True) (fetch_both (num 100 1) (num 200 1)) (js ''m'')
          sample_text False None) =
     Gives (Some \<lparr>cost = Some (num 3 1000), char_count = Some (num 80 1),
                  latency = Some (num 150 1)\<rparr>) \<and>
   snd (playTTS None False (Gives True) (fetch_both (num 100 1) (num 201 1)) (js ''m'')
          sample_text False None) =
     Gives (Some \<lparr>cost = Some (num 3 1000), char_count = Some (num 80 1),
                  latency = Some (num 151 1)\<rparr>) \<and>
   snd (playTTS None False (Gives True) (fetch_both (num 100 1) (num 203 1)) (js ''m'')
          sample_text False None) =
     Gives (Some \<lparr>cost = Some (num 3 1000), char_count = Some (num 80 1),
                  latency = Some (num 152 1)\<rparr>)"
proof -
  have r: "snd (chunkTextForTTS sample_text)
             = Some (js ''. And here is a third sentence that makes it long.'')"
    by (simp add: chunk_sample_text)
  have i: "fetch_both l1 l2 (js ''m'' @ js ''-0'') (fst (chunkTextForTTS sample_text))
             = Gives (Some \<lparr>dbuffer = 44,
                      dusage = Some \<lparr>cost = Some (num 1 1000), char_count = Some (num 30 1),
                                      latency = Some l1\<rparr>\<rparr>)" for l1 l2
    by (simp add: chunk_sample_text fetch_both_def is_intro_key_def js_def)
  have f: "fetch_both l1 l2 (js ''m'' @ js ''-1'')
             (js ''. And here is a third sentence that makes it long.'')
             = Gives (Some \<lparr>dbuffer = 50,
                      dusage = Some \<lparr>cost = Some (num 2 1000), char_count = Some (num 50 1),
                                      latency = Some l2\<rparr>\<rparr>)" for l1 l2
    by (simp add: fetch_both_def is_intro_key_def js_def)
  have n: "None \<noteq> Some (js ''m'') \<or> \<not> False" by simp
  have c: "js_add (num 1 1000) (num 2 1000) = num 3 1000"
    "js_add (num 30 1) (num 50 1) = num 80 1"
    "Math_round (js_div (js_add (num 100 1) (num 200 1)) (num 2 1)) = num 150 1"
    "Math_round (js_div (js_add (num 100 1) (num 201 1)) (num 2 1)) = num 151 1"
    "Math_round (js_div (js_add (num 100 1) (num 203 1)) (num 2 1)) = num 152 1"
    by (simp_all add: num_defs)
  show ?thesis
    unfolding usage_aggregation [OF r i f n, where hf = False and cb = None]
    by (simp add: c)
qed

section \<open>Properties of the handsfree orchestrator\<close>

lemmas hf_defs =
  hf_run_def mounted_def setIsHandsfreeActive_def render_def block_effect_def
  handsfree_effect_def startVADInternal_def onStart_def mic_granted_def
  stopRecordingAndSend_def recorder_onstop_def upload_settled_def handlePlayTTS_def
  handleTTSStart_def release_vad_def rearm_def stopTTS_def

lemma hf_run_append: "hf_run st s (xs @ ys) = hf_run st (hf_run st s xs) ys"
  by (simp add: hf_run_def)

lemma hf_run_Cons: "hf_run st s (e # es) = hf_run st (hf_step st s e) es"
  by (simp add: hf_run_def)

lemma listening_eq:
  "listening =
     mounted\<lparr>isHandsfreeActive := True, isHandsfreeRef := True, vadArmedRef := True,
             vadStopRef := True, isVADActive := True,
             blockPlaybackUntilRecordingRef := True\<rparr>"
  by (simp add: listening_def hf_defs Let_def)

lemma user_speaking_eq:
  "user_speaking =
     listening\<lparr>isRecording := True, mediaRecorderRef := Some RecRecording\<rparr>"
  by (simp add: user_speaking_def listening_eq hf_defs)

lemma reply_ready_eq:
  "reply_ready =
     mounted\<lparr>isHandsfreeActive := True, isHandsfreeRef := True, vadArmedRef := True,
             seen_isRecording := False, suppressVADRef := True, isLoading := True,
             isLoadingRef := True, mediaRecorderRef := Some RecInactive, uploads := 1\<rparr>"
  by (simp add: reply_ready_def user_speaking_eq listening_eq hf_defs Let_def)


subsection \<open>Playback and microphone in orderly runs\<close>

lemma apart_step:
  assumes "apart s" and "orderly_step s e"
  shows "apart (hf_step st s e)"
proof (cases e)
  case Render
  with assms show ?thesis
    by (auto simp add: apart_def render_def block_effect_def stopTTS_def startVADInternal_def
        Let_def)
next
  case (HandlePlayTTS f)
  with assms show ?thesis
    by (auto simp add: apart_def handlePlayTTS_def release_vad_def Let_def)
next
  case TtsStarted
  with assms show ?thesis
    by (auto simp add: apart_def handleTTSStart_def release_vad_def Let_def)
next
  case RearmElapsed
  with assms show ?thesis
    by (auto simp add: apart_def rearm_def startVADInternal_def Let_def)
qed (use assms in \<open>auto simp add: apart_def onStart_def stopRecordingAndSend_def mic_granted_def
      mic_denied_def recorder_onstop_def upload_settled_def split: option.splits
      recorder_state.splits\<close>)

lemma apart_run: "apart s \<Longrightarrow> orderly st s es \<Longrightarrow> apart (hf_run st s es)"
  unfolding hf_run_def
  by (induction es arbitrary: s) (simp_all add: apart_step)

text \<open>A recording that the detector started goes on with the detector armed.\<close>

lemma recording_step:
  assumes "vad_armed s" and "recording s" and "isHandsfreeRef s = isHandsfreeActive s"
    and "recording_event e"
  shows "vad_armed (hf_step st s e) \<and> recording (hf_step st s e) \<and>
         isHandsfreeRef (hf_step st s e) = isHandsfreeActive (hf_step st s e)"
proof (cases e)
  case Render
  with assms show ?thesis
    by (auto simp add: vad_armed_def recording_def render_def block_effect_def stopTTS_def
        Let_def)
next
  case RearmElapsed
  with assms show ?thesis
    by (auto simp add: vad_armed_def recording_def rearm_def Let_def)
qed (use assms in \<open>auto simp add: vad_armed_def recording_def onStart_def mic_granted_def
      mic_denied_def recorder_onstop_def upload_settled_def\<close>)

lemma recording_run:
  "vad_armed s \<Longrightarrow> recording s \<Longrightarrow> isHandsfreeRef s = isHandsfreeActive s \<Longrightarrow>
   list_all recording_event es \<Longrightarrow>
   vad_armed (hf_run st s es) \<and> recording (hf_run st s es)"
  unfolding hf_run_def
proof (induction es arbitrary: s)
  case Nil
  then show ?case by simp
next
  case (Cons e es)
  from recording_step [OF Cons.prems(1-3), of e st] Cons.prems(4)
  have "vad_armed (hf_step st s e)" "recording (hf_step st s e)"
    "isHandsfreeRef (hf_step st s e) = isHandsfreeActive (hf_step st s e)" by simp_all
  from Cons.IH [OF this] Cons.prems(4) show ?case by simp
qed

text \<open>
  The claim C2 as stated fails. By design: after handsfree was switched on and the
  detector has signalled speech, the recorder records while the detector is still armed
  and running, so two of the three conditions hold at once. And in runs that are not
  orderly playback meets the other two conditions: a recorder records during a playback
  that the user starts during the recording, or that starts while the request for the
  microphone is pending; the detector is armed during a playback when the completion is
  signalled while the playback lasts, when the playback starts while the re-arm timer of
  the one before is pending, or when handsfree is switched on during the playback.
\<close>

theorem handsfree_exclusion_counterexample:
  "isHandsfreeActive user_speaking \<and> vad_armed user_speaking \<and> recording user_speaking \<and>
   conditions_holding user_speaking = 2 \<and>
   recording (hf_run False user_speaking play_while_recording) \<and>
   tts_playing (hf_run False user_speaking play_while_recording) \<and>
   recording (hf_run False listening grant_in_playback) \<and>
   tts_playing (hf_run False listening grant_in_playback) \<and>
   vad_armed (hf_run False reply_ready early_complete) \<and>
   tts_playing (hf_run False reply_ready early_complete) \<and>
   vad_armed (hf_run False reply_ready late_rearm) \<and>
   tts_playing (hf_run False reply_ready late_rearm) \<and>
   isHandsfreeActive (hf_run False mounted switch_on_in_playback) \<and>
   vad_armed (hf_run False mounted switch_on_in_playback) \<and>
   tts_playing (hf_run False mounted switch_on_in_playback)"
proof -
  have "isHandsfreeActive user_speaking \<and> vad_armed user_speaking \<and> recording user_speaking \<and>
      conditions_holding user_speaking = 2"
    by (simp add: user_speaking_eq listening_eq mounted_def vad_armed_def recording_def
        tts_playing_def conditions_holding_def)
  moreover have "recording (hf_run False user_speaking play_while_recording) \<and>
      tts_playing (hf_run False user_speaking play_while_recording)"
    by (simp add: play_while_recording_def user_speaking_eq listening_eq hf_defs Let_def
        recording_def tts_playing_def)
  moreover have "recording (hf_run False listening grant_in_playback) \<and>
      tts_playing (hf_run False listening grant_in_playback)"
    by (simp add: grant_in_playback_def listening_eq hf_defs Let_def recording_def
        tts_playing_def)
  moreover have "vad_armed (hf_run False reply_ready early_complete) \<and>
      tts_playing (hf_run False reply_ready early_complete)"
    by (simp add: early_complete_def reply_ready_eq hf_defs Let_def vad_armed_def
        tts_playing_def)
  moreover have "vad_armed (hf_run False reply_ready late_rearm) \<and>
      tts_playing (hf_run False reply_ready late_rearm)"
    by (simp add: late_rearm_def reply_ready_eq hf_defs Let_def vad_armed_def tts_playing_def)
  moreover have "isHandsfreeActive (hf_run False mounted switch_on_in_playback) \<and>
      vad_armed (hf_run False mounted switch_on_in_playback) \<and>
      tts_playing (hf_run False mounted switch_on_in_playback)"
    by (simp add: switch_on_in_playback_def hf_defs Let_def vad_armed_def tts_playing_def)
  ultimately show ?thesis by simp
qed

text \<open>
  Claim C2, as the code has it. Handsfree is active, its effect has run, and nothing
  plays. Then in every state that an orderly run reaches, handsfree is active and, while
  TTS is playing, the detector is not armed and no recorder records: ``TTS playing'' is
  the only one of the three conditions that holds. While nothing plays, ``VAD armed''
  and ``recording in progress'' can hold together, and they do so throughout a recording
  that the detector started: whatever renders, further speech starts, grants and denials
  of the microphone, recorder stops, settled uploads and re-arm timers fall into it, the
  detector stays armed and the recorder records (the detector has to go on running to
  find the end of the speech).
\<close>

theorem handsfree_phases:
  "(isHandsfreeActive s \<and> isHandsfreeRef s \<and> \<not> tts_isPlaying s \<and> orderly st s es \<longrightarrow>
      isHandsfreeActive (hf_run st s es) \<and>
      (if tts_playing (hf_run st s es)
       then \<not> vad_armed (hf_run st s es) \<and> \<not> recording (hf_run st s es) \<and>
            conditions_holding (hf_run st s es) = 1
       else conditions_holding (hf_run st s es) \<le> 2)) \<and>
   (vad_armed r \<and> recording r \<and> isHandsfreeRef r = isHandsfreeActive r \<and>
    list_all recording_event rs \<longrightarrow>
      vad_armed (hf_run st r rs) \<and> recording (hf_run st r rs))"
proof -
  have "isHandsfreeActive (hf_run st s es) \<and>
      (if tts_playing (hf_run st s es)
       then \<not> vad_armed (hf_run st s es) \<and> \<not> recording (hf_run st s es) \<and>
            conditions_holding (hf_run st s es) = 1
       else conditions_holding (hf_run st s es) \<le> 2)"
    if a: "isHandsfreeActive s" "isHandsfreeRef s" "\<not> tts_isPlaying s" and o: "orderly st s es"
  proof -
    from a have "apart s" by (simp add: apart_def)
    from apart_run [OF this o] show ?thesis
      by (simp add: apart_def vad_armed_def recording_def tts_playing_def
          conditions_holding_def)
  qed
  with recording_run [of r rs st] show ?thesis by blast
qed

text \<open>
  An instance: a whole turn from listening to the playback of the reply, with a speech
  start during the playback; and a recording into which a render, a speech start and a
  re-arm timer fall.
\<close>

theorem handsfree_phases_witness:
  "tts_playing (hf_run False listening turn) \<and>
   \<not> vad_armed (hf_run False listening turn) \<and>
   \<not> recording (hf_run False listening turn) \<and>
   conditions_holding (hf_run False listening turn) = 1 \<and>
   vad_armed (hf_run False user_speaking [Render, VadSpeechStart, RearmElapsed]) \<and>
   recording (hf_run False user_speaking [Render, VadSpeechStart, RearmElapsed])"
proof -
  have a: "isHandsfreeActive listening \<and> isHandsfreeRef listening \<and> \<not> tts_isPlaying listening"
    by (simp add: listening_eq mounted_def)
  have o: "orderly False listening turn"
    by (simp add: turn_def listening_eq hf_defs Let_def)
  have p: "tts_playing (hf_run False listening turn)"
    by (simp add: turn_def listening_eq hf_defs Let_def tts_playing_def)
  have b: "vad_armed user_speaking \<and> recording user_speaking \<and>
      isHandsfreeRef user_speaking = isHandsfreeActive user_speaking"
    by (simp add: user_speaking_eq listening_eq mounted_def vad_armed_def recording_def)
  have c: "list_all recording_event [Render, VadSpeechStart, RearmElapsed]" by simp
  from handsfree_phases [of listening False turn user_speaking
      "[Render, VadSpeechStart, RearmElapsed]"] a o p b c
  show ?thesis by simp
qed

subsection \<open>A microphone granted during a playback\<close>


end
